theory Spec2Isabelle
  imports Complex_Main "HOL-Library.AList"
begin

section \<open>Data model\<close>

text \<open>
  The program is \<^verbatim>\<open>DataQualityChecker\<close> of \<^verbatim>\<open>src/data_quality.py\<close>: four evaluators that
  each add one flag column to a pandas data frame and record a result in the checker's
  \<^verbatim>\<open>quality_issues\<close> dictionary, \<^verbatim>\<open>run_all_checks\<close> that runs them in sequence and adds
  \<^verbatim>\<open>flag_overall\<close>, and \<^verbatim>\<open>generate_quality_summary\<close>.

  A cell of the data frame is a missing value (\<open>Null\<close> is the float NaN, which pandas
  puts where a value is missing, and \<open>NoneV\<close> is Python's None, which a column of
  objects can hold; \<^verbatim>\<open>pd.notna\<close> rejects both), an integer, a finite float (given by
  the rational it is equal to), an infinite float (\<open>PosInfV\<close>, \<open>NegInfV\<close>) or a text
  of ASCII characters. A data frame is its ordered list of column names and
  its rows; \<open>wf_df\<close> says that the names are distinct and that each row has one cell
  per column, as in every pandas frame with unique column names, and the theorems below
  assume it of their input.

  \<^verbatim>\<open>iterrows\<close> hands an integer cell to the loops as the float equal to it when every
  column of the frame is numeric. The checks do not tell the two apart: \<^verbatim>\<open>int\<close> and
  \<^verbatim>\<open>float\<close> give the same number for both, and the text of a finite number passes
  none of the patterns.
\<close>

datatype py_error = ZeroDivisionError | ValueError | TypeError | OverflowError

datatype cell = Null | NoneV | IntV int | FloatV rat | PosInfV | NegInfV | StrV string

text \<open>A Python float: a finite value, an infinity or NaN.\<close>

datatype pyfloat = Fin rat | PInf | NInf | NaN

record dataframe =
  columns :: "string list"
  rows :: "cell list list"

definition wf_df :: "dataframe \<Rightarrow> bool" where
  "wf_df df \<longleftrightarrow>
     distinct (columns df) \<and> list_all (\<lambda>r. length r = length (columns df)) (rows df)"

text \<open>\<^verbatim>\<open>len(df)\<close>\<close>

definition len_df :: "dataframe \<Rightarrow> nat" where
  "len_df df = length (rows df)"

text \<open>\<^verbatim>\<open>pd.notna(v)\<close>\<close>

fun notna :: "cell \<Rightarrow> bool" where
  "notna Null = False"
| "notna NoneV = False"
| "notna _ = True"

text \<open>\<^verbatim>\<open>row[name]\<close>: the cell of a row under a column name; \<open>None\<close> when the frame has
  no such column (a KeyError, which no caller below can reach: every name is tested
  against, or taken from, \<^verbatim>\<open>df.columns\<close>).\<close>

definition cell_at :: "string list \<Rightarrow> cell list \<Rightarrow> string \<Rightarrow> cell option" where
  "cell_at cols row name = map_of (zip cols row) name"

text \<open>\<^verbatim>\<open>df[name]\<close>: a column, one value per record.\<close>

definition column :: "dataframe \<Rightarrow> string \<Rightarrow> cell option list" where
  "column df name = map (\<lambda>row. cell_at (columns df) row name) (rows df)"

fun index_of :: "'a list \<Rightarrow> 'a \<Rightarrow> nat" where
  "index_of [] a = 0"
| "index_of (x # xs) a = (if x = a then 0 else Suc (index_of xs a))"

text \<open>\<^verbatim>\<open>df[name] = vals\<close>: an existing column is overwritten where it stands, a new
  one is appended after the last column.\<close>

definition set_col :: "string \<Rightarrow> cell list \<Rightarrow> dataframe \<Rightarrow> dataframe" where
  "set_col name vals df =
     (if name \<in> set (columns df)
      then df\<lparr>rows := map (\<lambda>(row, v). row[index_of (columns df) name := v]) (zip (rows df) vals)\<rparr>
      else df\<lparr>columns := columns df @ [name],
              rows := map (\<lambda>(row, v). row @ [v]) (zip (rows df) vals)\<rparr>)"

text \<open>\<^verbatim>\<open>df[name] = series\<close>: the series is aligned with the records, and a record it
  has no value for gets a missing value.\<close>

definition align :: "nat \<Rightarrow> cell list \<Rightarrow> cell list" where
  "align n vals = take n vals @ replicate (n - length vals) Null"

definition set_series :: "string \<Rightarrow> cell list \<Rightarrow> dataframe \<Rightarrow> dataframe" where
  "set_series name vals df = set_col name (align (len_df df) vals) df"

text \<open>\<^verbatim>\<open>mask.astype(int)\<close>\<close>

definition astype_int :: "bool list \<Rightarrow> cell list" where
  "astype_int bs = map (\<lambda>b. IntV (if b then 1 else 0)) bs"

text \<open>\<^verbatim>\<open>mask.sum()\<close>: the number of True entries.\<close>

definition mask_sum :: "bool list \<Rightarrow> int" where
  "mask_sum bs = int (length (filter id bs))"

subsection \<open>Division\<close>

text \<open>
  Floats are modelled by the exact value of each operation, without rounding. The count
  of a pandas mask is a numpy integer, whose division by zero gives NaN or an infinity
  and no exception; the sum of a Python list is a Python integer, whose division by zero
  raises.
\<close>

definition np_truediv :: "int \<Rightarrow> int \<Rightarrow> pyfloat" where
  "np_truediv a b =
     (if b = 0 then (if a = 0 then NaN else if 0 < a then PInf else NInf)
      else Fin (of_int a / of_int b))"

definition py_truediv :: "int \<Rightarrow> int \<Rightarrow> py_error + pyfloat" where
  "py_truediv a b = (if b = 0 then Inl ZeroDivisionError else Inr (Fin (of_int a / of_int b)))"

text \<open>\<^verbatim>\<open>x * 100\<close>\<close>

fun times100 :: "pyfloat \<Rightarrow> pyfloat" where
  "times100 (Fin x) = Fin (x * 100)"
| "times100 f = f"

subsection \<open>The checker's state\<close>

text \<open>
  \<^verbatim>\<open>self.quality_issues\<close> is a dictionary from the dimension's name to its result; a
  Python dictionary keeps the order of insertion, and an assignment to an existing key
  replaces the value where it stands. The description of a result is the fixed text of
  the message and the list of columns the message formats into it.
\<close>

record dim_result =
  total_issues :: int
  percentage :: pyfloat
  description :: string
  described_columns :: "string list"

type_synonym quality_issues = "(string \<times> dim_result) list"

section \<open>Completeness\<close>

definition critical_columns :: "string list" where
  "critical_columns =
     [''timevalue'', ''providerkey'', ''companynameofficial'',
      ''fiscalperiodend'', ''operationstatustype'', ''ipostatustype'',
      ''geonameen'', ''industrycode'', ''REVENUE'', ''unit_REVENUE'']"

text \<open>The columns the completeness check reads: the critical columns of the schema,
  or the first four columns when there is none.\<close>

definition completeness_columns :: "dataframe \<Rightarrow> string list" where
  "completeness_columns df =
     (let existing_critical = filter (\<lambda>col. col \<in> set (columns df)) critical_columns
      in if existing_critical = []
         then take (min 4 (length (columns df))) (columns df)
         else existing_critical)"

text \<open>\<^verbatim>\<open>isnull()\<close> of the cell of a row under a column name.\<close>

definition isnull_at :: "string list \<Rightarrow> cell list \<Rightarrow> string \<Rightarrow> bool" where
  "isnull_at cols row name = (case cell_at cols row name of Some v \<Rightarrow> \<not> notna v | None \<Rightarrow> False)"

text \<open>\<^verbatim>\<open>df[existing_critical].isnull().any(axis=1)\<close>\<close>

definition missing_mask :: "dataframe \<Rightarrow> string list \<Rightarrow> bool list" where
  "missing_mask df cols =
     map (\<lambda>row. list_ex (\<lambda>col. isnull_at (columns df) row col) cols) (rows df)"

definition check_completeness :: "quality_issues \<Rightarrow> dataframe \<Rightarrow> quality_issues \<times> dataframe" where
  "check_completeness qi df =
     (let existing_critical = completeness_columns df;
          missing = missing_mask df existing_critical;
          df' = set_series ''flag_completeness'' (astype_int missing) df;
          issues_count = mask_sum missing
      in (AList.update ''completeness''
            \<lparr>total_issues = issues_count,
             percentage = times100 (np_truediv issues_count (int (len_df df))),
             description = ''Missing values in critical columns: '',
             described_columns = existing_critical\<rparr> qi,
          df'))"

section \<open>Python's text and number primitives\<close>

text \<open>
  The built-ins the evaluators call, on ASCII text. Two of them depend on the binary
  representation of floats and are parameters of the model: the text \<^verbatim>\<open>str\<close> prints for
  a float, and the float \<^verbatim>\<open>float\<close> reads from a text (\<open>None\<close> when it raises ValueError).
\<close>

record pylib =
  float_repr :: "rat \<Rightarrow> string"
  float_of_text :: "string \<Rightarrow> pyfloat option"

definition upper_letters :: string where
  "upper_letters = ''ABCDEFGHIJKLMNOPQRSTUVWXYZ''"

definition lower_letters :: string where
  "lower_letters = ''abcdefghijklmnopqrstuvwxyz''"

definition digit_chars :: string where
  "digit_chars = ''0123456789''"

definition is_upper :: "char \<Rightarrow> bool" where
  "is_upper c \<longleftrightarrow> c \<in> set upper_letters"

definition is_lower :: "char \<Rightarrow> bool" where
  "is_lower c \<longleftrightarrow> c \<in> set lower_letters"

definition is_digit :: "char \<Rightarrow> bool" where
  "is_digit c \<longleftrightarrow> c \<in> set digit_chars"

text \<open>The white space of C's \<^verbatim>\<open>isspace\<close>, which \<^verbatim>\<open>int\<close> skips around a number, and the
  white space of the pattern \<^verbatim>\<open>\s\<close>, which has the four separators 0x1C to 0x1F too.\<close>

definition is_c_space :: "char \<Rightarrow> bool" where
  "is_c_space c \<longleftrightarrow> c \<in> set [CHR 0x09, CHR 0x0A, CHR 0x0B, CHR 0x0C, CHR 0x0D, CHR 0x20]"

definition is_re_space :: "char \<Rightarrow> bool" where
  "is_re_space c \<longleftrightarrow> is_c_space c \<or> c \<in> set [CHR 0x1C, CHR 0x1D, CHR 0x1E, CHR 0x1F]"

text \<open>\<^verbatim>\<open>s.upper()\<close>\<close>

definition upper_char :: "char \<Rightarrow> char" where
  "upper_char c = (case map_of (zip lower_letters upper_letters) c of Some u \<Rightarrow> u | None \<Rightarrow> c)"

definition py_upper :: "string \<Rightarrow> string" where
  "py_upper s = map upper_char s"

text \<open>\<^verbatim>\<open>s.isupper()\<close>: there is a cased character and no cased character is lower-case.\<close>

definition py_isupper :: "string \<Rightarrow> bool" where
  "py_isupper s \<longleftrightarrow> list_ex is_upper s \<and> \<not> list_ex is_lower s"

text \<open>\<^verbatim>\<open>s.istitle()\<close>: the scan of CPython, with whether the previous character was cased
  and whether any cased character was seen.\<close>

fun istitle_scan :: "bool \<Rightarrow> bool \<Rightarrow> string \<Rightarrow> bool" where
  "istitle_scan previous_is_cased cased [] = cased"
| "istitle_scan previous_is_cased cased (c # cs) =
     (if is_upper c then (if previous_is_cased then False else istitle_scan True True cs)
      else if is_lower c then (if \<not> previous_is_cased then False else istitle_scan True True cs)
      else istitle_scan False cased cs)"

definition py_istitle :: "string \<Rightarrow> bool" where
  "py_istitle s = istitle_scan False False s"

text \<open>\<^verbatim>\<open>str(n)\<close> of an integer.\<close>

fun nat_digits :: "nat \<Rightarrow> string" where
  "nat_digits n =
     (if n < 10 then [digit_chars ! n] else nat_digits (n div 10) @ [digit_chars ! (n mod 10)])"

definition int_str :: "int \<Rightarrow> string" where
  "int_str i = (if i < 0 then CHR ''-'' # nat_digits (nat (- i)) else nat_digits (nat i))"

text \<open>\<^verbatim>\<open>str(v)\<close> of a cell.\<close>

fun py_str :: "pylib \<Rightarrow> cell \<Rightarrow> string" where
  "py_str lib (StrV s) = s"
| "py_str lib (IntV i) = int_str i"
| "py_str lib (FloatV r) = float_repr lib r"
| "py_str lib PosInfV = ''inf''"
| "py_str lib NegInfV = ''-inf''"
| "py_str lib Null = ''nan''"
| "py_str lib NoneV = ''None''"

text \<open>
  \<^verbatim>\<open>int(v)\<close>. Of a text: white space, an optional sign, decimal digits with single
  underscores between them, white space; anything else raises ValueError, and so do more
  than 4300 digits. Of a finite float: the integer towards zero. Of an infinite float:
  OverflowError; of NaN: ValueError; of None: TypeError.
\<close>

fun digitpart :: "string \<Rightarrow> string option" where
  "digitpart [] = None"
| "digitpart [c] = (if is_digit c then Some [c] else None)"
| "digitpart (c # u # cs) =
     (if \<not> is_digit c then None
      else if u = CHR ''_'' then map_option ((#) c) (digitpart cs)
      else map_option ((#) c) (digitpart (u # cs)))"

definition digits_value :: "string \<Rightarrow> int" where
  "digits_value ds = foldl (\<lambda>a c. 10 * a + int (index_of digit_chars c)) 0 ds"

definition strip_space :: "string \<Rightarrow> string" where
  "strip_space s = rev (dropWhile is_c_space (rev (dropWhile is_c_space s)))"

definition max_str_digits :: nat where
  "max_str_digits = 4300"

definition unsigned_of_text :: "string \<Rightarrow> int option" where
  "unsigned_of_text s =
     (case digitpart s of
        None \<Rightarrow> None
      | Some ds \<Rightarrow> if max_str_digits < length ds then None else Some (digits_value ds))"

definition int_of_text :: "string \<Rightarrow> int option" where
  "int_of_text s =
     (case strip_space s of
        [] \<Rightarrow> None
      | c # cs \<Rightarrow>
          if c = CHR ''-'' then map_option uminus (unsigned_of_text cs)
          else if c = CHR ''+'' then unsigned_of_text cs
          else unsigned_of_text (c # cs))"

fun py_int :: "cell \<Rightarrow> py_error + int" where
  "py_int (IntV i) = Inr i"
| "py_int (FloatV r) = Inr (if 0 \<le> r then \<lfloor>r\<rfloor> else \<lceil>r\<rceil>)"
| "py_int (StrV s) = (case int_of_text s of None \<Rightarrow> Inl ValueError | Some i \<Rightarrow> Inr i)"
| "py_int PosInfV = Inl OverflowError"
| "py_int NegInfV = Inl OverflowError"
| "py_int Null = Inl ValueError"
| "py_int NoneV = Inl TypeError"

text \<open>
  \<^verbatim>\<open>float(v)\<close>. An integer beyond the range of a float raises OverflowError (the least
  such is \<open>2^1024 - 2^970\<close>, which rounds up out of the range).
\<close>

definition float_overflow :: int where
  "float_overflow = 2 ^ 1024 - 2 ^ 970"

fun py_float :: "pylib \<Rightarrow> cell \<Rightarrow> py_error + pyfloat" where
  "py_float lib (IntV i) = (if float_overflow \<le> \<bar>i\<bar> then Inl OverflowError else Inr (Fin (of_int i)))"
| "py_float lib (FloatV r) = Inr (Fin r)"
| "py_float lib (StrV s) = (case float_of_text lib s of None \<Rightarrow> Inl ValueError | Some f \<Rightarrow> Inr f)"
| "py_float lib PosInfV = Inr PInf"
| "py_float lib NegInfV = Inr NInf"
| "py_float lib Null = Inr NaN"
| "py_float lib NoneV = Inl TypeError"

text \<open>\<^verbatim>\<open>x < y\<close> on floats: false when either side is NaN.\<close>

fun fl_less :: "pyfloat \<Rightarrow> pyfloat \<Rightarrow> bool" where
  "fl_less (Fin a) (Fin b) = (a < b)"
| "fl_less (Fin a) PInf = True"
| "fl_less (Fin a) NInf = False"
| "fl_less (Fin a) NaN = False"
| "fl_less PInf _ = False"
| "fl_less NInf (Fin b) = True"
| "fl_less NInf PInf = True"
| "fl_less NInf NInf = False"
| "fl_less NInf NaN = False"
| "fl_less NaN _ = False"

subsection \<open>The patterns\<close>

text \<open>
  Each pattern is matched by \<^verbatim>\<open>re.match\<close>, from the start of the text. \<^verbatim>\<open>$\<close> holds at
  the end of the text and before a line feed that ends it.
\<close>

definition at_end :: "string \<Rightarrow> bool" where
  "at_end s \<longleftrightarrow> s = [] \<or> s = [CHR 0x0A]"

text \<open>\<^verbatim>\<open>^[A-Z][A-Z\s&\.\-\(\),]*$\<close>; the class has the line feed, so \<^verbatim>\<open>$\<close> asks for no
  more than that every character after the first is of the class.\<close>

definition company_char :: "char \<Rightarrow> bool" where
  "company_char c \<longleftrightarrow> is_upper c \<or> is_re_space c \<or> c \<in> set ''&.-(),''"

definition re_company :: "string \<Rightarrow> bool" where
  "re_company s = (case s of [] \<Rightarrow> False | c # cs \<Rightarrow> is_upper c \<and> list_all company_char cs)"

text \<open>\<^verbatim>\<open>^[A-Z]{3}$\<close>\<close>

definition re_currency :: "string \<Rightarrow> bool" where
  "re_currency s =
     (case s of
        a # b # c # rest \<Rightarrow> is_upper a \<and> is_upper b \<and> is_upper c \<and> at_end rest
      | _ \<Rightarrow> False)"

text \<open>\<^verbatim>\<open>^\d{1,2}-(Jan|Feb|Mar|Apr|May|Jun|Jul|Aug|Sep|Oct|Nov|Dec)$\<close>\<close>

definition months :: "string list" where
  "months = [''Jan'', ''Feb'', ''Mar'', ''Apr'', ''May'', ''Jun'',
             ''Jul'', ''Aug'', ''Sep'', ''Oct'', ''Nov'', ''Dec'']"

definition re_month_end :: "string \<Rightarrow> bool" where
  "re_month_end s =
     (case s of
        d # m1 # m2 # m3 # rest \<Rightarrow> d = CHR ''-'' \<and> [m1, m2, m3] \<in> set months \<and> at_end rest
      | _ \<Rightarrow> False)"

definition re_fiscal :: "string \<Rightarrow> bool" where
  "re_fiscal s =
     (case s of
        [] \<Rightarrow> False
      | d1 # rest \<Rightarrow>
          is_digit d1 \<and>
          ((case rest of [] \<Rightarrow> False | d2 # rest2 \<Rightarrow> is_digit d2 \<and> re_month_end rest2)
           \<or> re_month_end rest))"

text \<open>\<^verbatim>\<open>^\d{4}\s*-\s*.+\<close>: after the hyphen \<^verbatim>\<open>\s*\<close> may stop at any of the white space
  it could take, and \<^verbatim>\<open>.+\<close> needs one character that is no line feed.\<close>

fun re_industry_tail :: "string \<Rightarrow> bool" where
  "re_industry_tail [] = False"
| "re_industry_tail (c # cs) = (c \<noteq> CHR 0x0A \<or> (is_re_space c \<and> re_industry_tail cs))"

fun re_industry_dash :: "string \<Rightarrow> bool" where
  "re_industry_dash [] = False"
| "re_industry_dash (c # cs) =
     ((c = CHR ''-'' \<and> re_industry_tail cs) \<or> (is_re_space c \<and> re_industry_dash cs))"

definition re_industry :: "string \<Rightarrow> bool" where
  "re_industry s =
     (case s of
        d1 # d2 # d3 # d4 # rest \<Rightarrow>
          is_digit d1 \<and> is_digit d2 \<and> is_digit d3 \<and> is_digit d4 \<and> re_industry_dash rest
      | _ \<Rightarrow> False)"

section \<open>Consistency\<close>

text \<open>\<^verbatim>\<open>name in df.columns and pd.notna(row[name])\<close>: the value a sub-check reads, when
  there is one.\<close>

definition present :: "string list \<Rightarrow> cell list \<Rightarrow> string \<Rightarrow> cell option" where
  "present cols row name =
     (if name \<in> set cols
      then (case cell_at cols row name of
              Some v \<Rightarrow> if notna v then Some v else None
            | None \<Rightarrow> None)
      else None)"

definition sub_check :: "string list \<Rightarrow> cell list \<Rightarrow> string \<Rightarrow> (cell \<Rightarrow> bool) \<Rightarrow> bool" where
  "sub_check cols row name issue =
     (case present cols row name of None \<Rightarrow> False | Some v \<Rightarrow> issue v)"

definition company_issue :: "pylib \<Rightarrow> cell \<Rightarrow> bool" where
  "company_issue lib v =
     (let company_name = py_str lib v
      in \<not> (py_isupper company_name \<or> py_istitle company_name) \<and> \<not> re_company company_name)"

definition operation_issue :: "pylib \<Rightarrow> cell \<Rightarrow> bool" where
  "operation_issue lib v =
     (py_upper (py_str lib v) \<notin> set [''ACTIVE'', ''INACTIVE'', ''DORMANT'', ''LIQUIDATION''])"

definition ipo_issue :: "pylib \<Rightarrow> cell \<Rightarrow> bool" where
  "ipo_issue lib v = (py_upper (py_str lib v) \<notin> set [''PUBLIC'', ''PRIVATE'', ''SUBSIDIARY''])"

definition currency_issue :: "pylib \<Rightarrow> cell \<Rightarrow> bool" where
  "currency_issue lib v = (\<not> re_currency (py_upper (py_str lib v)))"

text \<open>The body of the loop over the rows: the flag starts at 0 and each failing
  sub-check sets it to 1.\<close>

definition consistency_flag :: "pylib \<Rightarrow> string list \<Rightarrow> cell list \<Rightarrow> int" where
  "consistency_flag lib cols row =
     (if sub_check cols row ''companynameofficial'' (company_issue lib)
         \<or> sub_check cols row ''operationstatustype'' (operation_issue lib)
         \<or> sub_check cols row ''ipostatustype'' (ipo_issue lib)
         \<or> sub_check cols row ''unit_REVENUE'' (currency_issue lib)
      then 1 else 0)"

definition check_consistency ::
  "pylib \<Rightarrow> quality_issues \<Rightarrow> dataframe \<Rightarrow> py_error + quality_issues \<times> dataframe" where
  "check_consistency lib qi df =
     (let consistency_flags = map (consistency_flag lib (columns df)) (rows df);
          df' = set_col ''flag_consistency'' (map IntV consistency_flags) df;
          issues_count = sum_list consistency_flags
      in case py_truediv issues_count (int (len_df df)) of
           Inl e \<Rightarrow> Inl e
         | Inr q \<Rightarrow>
             Inr (AList.update ''consistency''
                    \<lparr>total_issues = issues_count,
                     percentage = times100 q,
                     description =
                       ''Inconsistent formatting in company names, status types, or currency codes'',
                     described_columns = []\<rparr> qi,
                  df'))"

section \<open>Validity\<close>

text \<open>\<^verbatim>\<open>try: ... except (ValueError, TypeError): flag = 1\<close>; any other exception leaves
  the evaluator.\<close>

definition except_value_type :: "py_error + bool \<Rightarrow> py_error + bool" where
  "except_value_type r =
     (case r of
        Inl e \<Rightarrow> if e = ValueError \<or> e = TypeError then Inr True else Inl e
      | Inr b \<Rightarrow> Inr b)"

definition year_issue :: "cell \<Rightarrow> py_error + bool" where
  "year_issue v =
     except_value_type
       (case py_int v of
          Inl e \<Rightarrow> Inl e
        | Inr year \<Rightarrow> Inr (\<not> (1900 \<le> year \<and> year \<le> 2030)))"

definition revenue_issue :: "pylib \<Rightarrow> cell \<Rightarrow> py_error + bool" where
  "revenue_issue lib v =
     except_value_type
       (case py_float lib v of
          Inl e \<Rightarrow> Inl e
        | Inr revenue \<Rightarrow> Inr (fl_less revenue (Fin 0) \<or> fl_less (Fin (10 ^ 15)) revenue))"

definition fiscal_issue :: "pylib \<Rightarrow> cell \<Rightarrow> bool" where
  "fiscal_issue lib v = (\<not> re_fiscal (py_str lib v))"

definition industry_issue :: "pylib \<Rightarrow> cell \<Rightarrow> bool" where
  "industry_issue lib v = (\<not> re_industry (py_str lib v))"

definition sub_check_try ::
  "string list \<Rightarrow> cell list \<Rightarrow> string \<Rightarrow> (cell \<Rightarrow> py_error + bool) \<Rightarrow> py_error + bool" where
  "sub_check_try cols row name issue =
     (case present cols row name of None \<Rightarrow> Inr False | Some v \<Rightarrow> issue v)"

definition validity_flag :: "pylib \<Rightarrow> string list \<Rightarrow> cell list \<Rightarrow> py_error + int" where
  "validity_flag lib cols row =
     (case sub_check_try cols row ''timevalue'' year_issue of
        Inl e \<Rightarrow> Inl e
      | Inr year_bad \<Rightarrow>
          (case sub_check_try cols row ''REVENUE'' (revenue_issue lib) of
             Inl e \<Rightarrow> Inl e
           | Inr revenue_bad \<Rightarrow>
               Inr (if year_bad \<or> revenue_bad
                       \<or> sub_check cols row ''fiscalperiodend'' (fiscal_issue lib)
                       \<or> sub_check cols row ''industrycode'' (industry_issue lib)
                    then 1 else 0)))"

text \<open>A loop that an exception can leave: the first error is the result.\<close>

fun map_result :: "('a \<Rightarrow> 'e + 'b) \<Rightarrow> 'a list \<Rightarrow> 'e + 'b list" where
  "map_result f [] = Inr []"
| "map_result f (x # xs) =
     (case f x of
        Inl e \<Rightarrow> Inl e
      | Inr y \<Rightarrow> (case map_result f xs of Inl e \<Rightarrow> Inl e | Inr ys \<Rightarrow> Inr (y # ys)))"

definition check_validity ::
  "pylib \<Rightarrow> quality_issues \<Rightarrow> dataframe \<Rightarrow> py_error + quality_issues \<times> dataframe" where
  "check_validity lib qi df =
     (case map_result (validity_flag lib (columns df)) (rows df) of
        Inl e \<Rightarrow> Inl e
      | Inr validity_flags \<Rightarrow>
          (let df' = set_col ''flag_validity'' (map IntV validity_flags) df;
               issues_count = sum_list validity_flags
           in case py_truediv issues_count (int (len_df df)) of
                Inl e \<Rightarrow> Inl e
              | Inr q \<Rightarrow>
                  Inr (AList.update ''validity''
                         \<lparr>total_issues = issues_count,
                          percentage = times100 q,
                          description = ''Invalid data ranges, formats, or values detected'',
                          described_columns = []\<rparr> qi,
                       df')))"

section \<open>Uniqueness\<close>

definition key_columns :: "string list" where
  "key_columns = [''providerkey'', ''timevalue'', ''fiscalperiodend'']"

text \<open>\<^verbatim>\<open>col.startswith(prefix)\<close>\<close>

definition startswith :: "string \<Rightarrow> string \<Rightarrow> bool" where
  "startswith prefix col \<longleftrightarrow> take (length prefix) col = prefix"

definition uniqueness_columns :: "dataframe \<Rightarrow> string list" where
  "uniqueness_columns df =
     (let existing_key_columns = filter (\<lambda>col. col \<in> set (columns df)) key_columns
      in if existing_key_columns = []
         then filter (\<lambda>col. \<not> startswith ''flag_'' col) (columns df)
         else existing_key_columns)"

text \<open>
  \<^verbatim>\<open>df.duplicated(subset=key_cols, keep=False)\<close>. A frame with no record or no column
  gives a mask of False, one for each record; a frame with records and columns and an
  empty list of key columns raises ValueError (the factorised columns do not unpack into
  labels and shapes). Equal numbers are one key value whether integer or float. With one
  key column pandas compares the values of that column: NaN is equal to NaN and None to
  None, and the two are apart. With several key columns pandas factorises each column,
  and all the missing values of a column are one value.
\<close>

fun key_value :: "bool \<Rightarrow> cell \<Rightarrow> cell" where
  "key_value single (IntV i) = FloatV (of_int i)"
| "key_value single NoneV = (if single then NoneV else Null)"
| "key_value single v = v"

definition key_tuple :: "string list \<Rightarrow> string list \<Rightarrow> cell list \<Rightarrow> cell option list" where
  "key_tuple cols key_cols row =
     map (\<lambda>col. map_option (key_value (length key_cols = 1)) (cell_at cols row col)) key_cols"

definition duplicated_all :: "dataframe \<Rightarrow> string list \<Rightarrow> py_error + bool list" where
  "duplicated_all df key_cols =
     (if columns df = [] \<or> rows df = [] then Inr (replicate (length (rows df)) False)
      else if key_cols = [] then Inl ValueError
      else (let keys = map (key_tuple (columns df) key_cols) (rows df)
            in Inr (map (\<lambda>k. 1 < count_list keys k) keys)))"

definition check_uniqueness ::
  "quality_issues \<Rightarrow> dataframe \<Rightarrow> py_error + quality_issues \<times> dataframe" where
  "check_uniqueness qi df =
     (let existing_key_columns = uniqueness_columns df
      in case duplicated_all df existing_key_columns of
           Inl e \<Rightarrow> Inl e
         | Inr duplicate_mask \<Rightarrow>
             (let df' = set_series ''flag_uniqueness'' (astype_int duplicate_mask) df;
                  issues_count = mask_sum duplicate_mask
              in Inr (AList.update ''uniqueness''
                        \<lparr>total_issues = issues_count,
                         percentage = times100 (np_truediv issues_count (int (len_df df))),
                         description = ''Duplicate records based on columns: '',
                         described_columns = existing_key_columns\<rparr> qi,
                      df')))"

section \<open>All checks and the summary\<close>

text \<open>
  \<^verbatim>\<open>df[flag_columns].max(axis=1)\<close>: the greatest number of each record among the chosen
  columns, missing values skipped, and a missing value when the record has no number
  there; an infinite float is greater, or less, than every other number. A text among the
  chosen cells raises TypeError. The result is a column of integers when every chosen
  cell is an integer, and of floats otherwise.
\<close>

fun is_text :: "cell \<Rightarrow> bool" where
  "is_text (StrV s) = True"
| "is_text _ = False"

fun is_int :: "cell \<Rightarrow> bool" where
  "is_int (IntV i) = True"
| "is_int _ = False"

fun num_value :: "cell \<Rightarrow> rat option" where
  "num_value (IntV i) = Some (of_int i)"
| "num_value (FloatV r) = Some r"
| "num_value _ = None"

definition select_cells :: "string list \<Rightarrow> string list \<Rightarrow> cell list \<Rightarrow> cell list" where
  "select_cells cols names row = List.map_filter (cell_at cols row) names"

definition row_max :: "bool \<Rightarrow> cell list \<Rightarrow> cell" where
  "row_max as_float cs =
     (if list_ex (\<lambda>c. c = PosInfV) cs then PosInfV
      else case List.map_filter num_value cs of
             [] \<Rightarrow> (if list_ex (\<lambda>c. c = NegInfV) cs then NegInfV else Null)
           | x # xs \<Rightarrow> (let m = fold max xs x in if as_float then FloatV m else IntV \<lfloor>m\<rfloor>))"

definition max_axis1 :: "dataframe \<Rightarrow> string list \<Rightarrow> py_error + cell list" where
  "max_axis1 df names =
     (let sel = map (select_cells (columns df) names) (rows df)
      in if list_ex (list_ex is_text) sel then Inl TypeError
         else Inr (map (row_max (list_ex (list_ex (\<lambda>c. \<not> is_int c)) sel)) sel))"

text \<open>The four evaluators in the order \<^verbatim>\<open>run_all_checks\<close> calls them, each on the
  frame and the dictionary the one before left.\<close>

definition four_checks ::
  "pylib \<Rightarrow> quality_issues \<Rightarrow> dataframe \<Rightarrow> py_error + quality_issues \<times> dataframe" where
  "four_checks lib qi df =
     (case check_completeness qi df of
        (qi1, df1) \<Rightarrow>
          (case check_consistency lib qi1 df1 of
             Inl e \<Rightarrow> Inl e
           | Inr (qi2, df2) \<Rightarrow>
               (case check_validity lib qi2 df2 of
                  Inl e \<Rightarrow> Inl e
                | Inr (qi3, df3) \<Rightarrow> check_uniqueness qi3 df3)))"

definition run_all_checks ::
  "pylib \<Rightarrow> quality_issues \<Rightarrow> dataframe \<Rightarrow> py_error + quality_issues \<times> dataframe" where
  "run_all_checks lib qi df =
     (case four_checks lib qi df of
        Inl e \<Rightarrow> Inl e
      | Inr (qi4, df4) \<Rightarrow>
          (let flag_columns = filter (startswith ''flag_'') (columns df4)
           in case max_axis1 df4 flag_columns of
                Inl e \<Rightarrow> Inl e
              | Inr overall \<Rightarrow> Inr (qi4, set_series ''flag_overall'' overall df4)))"

text \<open>
  The summary, with the time of the call as an argument. The inferred type of each
  column, which the summary lists too, is left out: no cell of the model has a pandas
  dtype. The score is 0 unless the guard lets the division run, so it is a finite number.
\<close>

record summary =
  total_records :: nat
  quality_measures :: quality_issues
  overall_quality_score :: rat
  timestamp :: string
  dataset_columns :: "string list"

definition generate_quality_summary :: "string \<Rightarrow> quality_issues \<Rightarrow> dataframe \<Rightarrow> summary" where
  "generate_quality_summary now qi df =
     (let issues = sum_list (map (\<lambda>(name, measure). total_issues measure) qi);
          total_possible_issues = int (len_df df) * int (length qi)
      in \<lparr>total_records = len_df df,
          quality_measures = qi,
          overall_quality_score =
            (if 0 < total_possible_issues
             then max 0 (100 - (of_int issues / of_int total_possible_issues * 100))
             else 0),
          timestamp = now,
          dataset_columns = columns df\<rparr>)"

text \<open>The keys the four evaluators write into \<^verbatim>\<open>quality_issues\<close>, and the columns they
  write into the frame.\<close>

definition dimension_names :: "string list" where
  "dimension_names = [''completeness'', ''consistency'', ''validity'', ''uniqueness'']"

definition dimension_flags :: "string list" where
  "dimension_flags =
     [''flag_completeness'', ''flag_consistency'', ''flag_validity'', ''flag_uniqueness'']"

text \<open>Two frames that have the same records and the same columns outside the columns
  whose name starts with \<^verbatim>\<open>flag_\<close>.\<close>

definition same_raw :: "dataframe \<Rightarrow> dataframe \<Rightarrow> bool" where
  "same_raw a b \<longleftrightarrow>
     len_df a = len_df b
     \<and> filter (\<lambda>c. \<not> startswith ''flag_'' c) (columns a) = filter (\<lambda>c. \<not> startswith ''flag_'' c) (columns b)
     \<and> list_all (\<lambda>n. column a n = column b n) (filter (\<lambda>c. \<not> startswith ''flag_'' c) (columns a))"

section \<open>Frames: reading and writing columns\<close>

lemma columns_set_col:
  "columns (set_col name vals df) = (if name \<in> set (columns df) then columns df else columns df @ [name])"
  by (simp add: set_col_def)

lemma length_rows_set_col:
  "length vals = length (rows df) \<Longrightarrow> length (rows (set_col name vals df)) = length (rows df)"
  by (simp add: set_col_def)

lemma nth_rows_set_col:
  "length vals = length (rows df) \<Longrightarrow> i < length (rows df) \<Longrightarrow>
   rows (set_col name vals df) ! i =
     (if name \<in> set (columns df) then (rows df ! i)[index_of (columns df) name := vals ! i]
      else rows df ! i @ [vals ! i])"
  by (simp add: set_col_def)

lemma index_of_less: "a \<in> set xs \<Longrightarrow> index_of xs a < length xs"
  by (induction xs) auto

lemma nth_index_of: "a \<in> set xs \<Longrightarrow> xs ! index_of xs a = a"
  by (induction xs) auto

lemma cell_at_update_same:
  "name \<in> set cols \<Longrightarrow> length row = length cols \<Longrightarrow>
   cell_at cols (row[index_of cols name := v]) name = Some v"
  unfolding cell_at_def
proof (induction cols arbitrary: row)
  case Nil then show ?case by simp
next
  case (Cons c cols)
  then obtain r rs where row: "row = r # rs" by (cases row) auto
  with Cons show ?case by (auto)
qed

lemma cell_at_update_other:
  "name' \<noteq> name \<Longrightarrow>
   cell_at cols (row[index_of cols name := v]) name' = cell_at cols row name'"
  unfolding cell_at_def
proof (induction cols arbitrary: row)
  case Nil then show ?case by simp
next
  case (Cons c cols)
  show ?case
  proof (cases row)
    case Nil then show ?thesis by simp
  next
    case (Cons r rs)
    with Cons.IH Cons.prems show ?thesis by auto
  qed
qed

lemma cell_at_append_same:
  "name \<notin> set cols \<Longrightarrow> length row = length cols \<Longrightarrow> cell_at (cols @ [name]) (row @ [v]) name = Some v"
  unfolding cell_at_def
  by (simp add: map_add_Some_iff map_of_zip_is_None)

lemma cell_at_append_other:
  "name' \<noteq> name \<Longrightarrow> length row = length cols \<Longrightarrow> cell_at (cols @ [name]) (row @ [v]) name' = cell_at cols row name'"
  unfolding cell_at_def
  by (simp add: map_add_def del: map_of_zip_is_None split: option.split)

lemma wf_df_rowD: "wf_df df \<Longrightarrow> i < length (rows df) \<Longrightarrow> length (rows df ! i) = length (columns df)"
  by (simp add: wf_df_def list_all_length)

lemma wf_df_set_col:
  assumes "wf_df df" "length vals = len_df df"
  shows "wf_df (set_col name vals df)"
  using assms
  by (auto simp: wf_df_def set_col_def len_df_def list_all_length)

lemma len_df_set_col:
  "length vals = len_df df \<Longrightarrow> len_df (set_col name vals df) = len_df df"
  by (simp add: len_df_def set_col_def)

lemma cell_at_set_col_same:
  assumes "wf_df df" "length vals = len_df df" "i < len_df df"
  shows "cell_at (columns (set_col name vals df)) (rows (set_col name vals df) ! i) name = Some (vals ! i)"
proof -
  have len: "length (rows df ! i) = length (columns df)"
    using assms by (simp add: wf_df_rowD len_df_def)
  show ?thesis
    using assms len
    by (simp add: nth_rows_set_col len_df_def columns_set_col cell_at_update_same cell_at_append_same)
qed

lemma cell_at_set_col_other:
  assumes "wf_df df" "length vals = len_df df" "i < len_df df" "name' \<noteq> name"
  shows "cell_at (columns (set_col name vals df)) (rows (set_col name vals df) ! i) name'
         = cell_at (columns df) (rows df ! i) name'"
proof -
  have len: "length (rows df ! i) = length (columns df)"
    using assms by (simp add: wf_df_rowD len_df_def)
  show ?thesis
    using assms len
    by (simp add: nth_rows_set_col len_df_def columns_set_col cell_at_update_other cell_at_append_other)
qed

lemma column_nth: "i < len_df df \<Longrightarrow> column df name ! i = cell_at (columns df) (rows df ! i) name"
  by (simp add: column_def len_df_def)

lemma length_column: "length (column df name) = len_df df"
  by (simp add: column_def len_df_def)

lemma column_set_col_same:
  assumes "wf_df df" "length vals = len_df df"
  shows "column (set_col name vals df) name = map Some vals"
  by (rule nth_equalityI)
     (use assms in \<open>simp_all add: length_column len_df_set_col column_nth cell_at_set_col_same\<close>)

lemma column_set_col_other:
  assumes "wf_df df" "length vals = len_df df" "name' \<noteq> name"
  shows "column (set_col name vals df) name' = column df name'"
  by (rule nth_equalityI)
     (use assms in \<open>simp_all add: length_column len_df_set_col column_nth cell_at_set_col_other\<close>)

lemma align_same: "length vals = n \<Longrightarrow> align n vals = vals"
  by (simp add: align_def)

lemma length_align: "length (align n vals) = n"
  by (simp add: align_def)

lemma set_series_eq: "length vals = len_df df \<Longrightarrow> set_series name vals df = set_col name vals df"
  by (simp add: set_series_def align_same)

section \<open>What each evaluator writes\<close>

lemma length_missing_mask: "length (missing_mask df cols) = len_df df"
  by (simp add: missing_mask_def len_df_def)

lemma check_completeness_frame:
  "snd (check_completeness qi df) =
     set_col ''flag_completeness'' (astype_int (missing_mask df (completeness_columns df))) df"
  by (simp add: check_completeness_def Let_def set_series_eq astype_int_def length_missing_mask)

lemma check_consistency_frame:
  assumes "check_consistency lib qi df = Inr (qi', df')"
  shows "df' = set_col ''flag_consistency'' (map IntV (map (consistency_flag lib (columns df)) (rows df))) df"
    and "rows df \<noteq> []"
  using assms
  by (auto simp: check_consistency_def Let_def py_truediv_def len_df_def split: if_splits)

lemma map_result_Inr:
  "map_result f xs = Inr ys \<Longrightarrow> map f xs = map Inr ys"
  by (induction xs arbitrary: ys) (auto split: sum.splits)

lemma map_result_length:
  "map_result f xs = Inr ys \<Longrightarrow> length ys = length xs"
  by (drule map_result_Inr) (metis length_map)

lemma check_validity_frame:
  assumes "check_validity lib qi df = Inr (qi', df')"
  obtains flags where "map_result (validity_flag lib (columns df)) (rows df) = Inr flags"
    and "df' = set_col ''flag_validity'' (map IntV flags) df" and "rows df \<noteq> []"
  using assms
  by (auto simp: check_validity_def Let_def py_truediv_def len_df_def split: if_splits sum.splits)

lemma check_uniqueness_frame:
  assumes "check_uniqueness qi df = Inr (qi', df')"
  obtains dup where "duplicated_all df (uniqueness_columns df) = Inr dup"
    and "df' = set_col ''flag_uniqueness'' (align (len_df df) (astype_int dup)) df"
  using assms
  by (auto simp: check_uniqueness_def Let_def set_series_def split: sum.splits)

section \<open>The empty dataset\<close>

text \<open>
  Claim C2. On a dataset with no record the claim asks that no division error is raised
  and that every percentage and the score are defined values. The code does otherwise:
  \<^verbatim>\<open>check_consistency\<close> and \<^verbatim>\<open>check_validity\<close> divide the Python integer
  \<^verbatim>\<open>issues_count\<close> by \<^verbatim>\<open>len(df)\<close>, which is 0, and the ZeroDivisionError leaves
  \<^verbatim>\<open>run_all_checks\<close>; \<^verbatim>\<open>check_completeness\<close> divides a numpy integer and reports the
  percentage NaN. Only \<^verbatim>\<open>generate_quality_summary\<close> guards its division, and gives the
  score 0.
\<close>

theorem empty_dataset_raises:
  "check_consistency lib qi \<lparr>columns = cols, rows = []\<rparr> = Inl ZeroDivisionError
   \<and> check_validity lib qi \<lparr>columns = cols, rows = []\<rparr> = Inl ZeroDivisionError
   \<and> run_all_checks lib qi \<lparr>columns = cols, rows = []\<rparr> = Inl ZeroDivisionError
   \<and> map_of (fst (check_completeness qi \<lparr>columns = cols, rows = []\<rparr>)) ''completeness''
       = Some \<lparr>total_issues = 0, percentage = NaN,
               description = ''Missing values in critical columns: '',
               described_columns = completeness_columns \<lparr>columns = cols, rows = []\<rparr>\<rparr>
   \<and> overall_quality_score (generate_quality_summary now qi \<lparr>columns = cols, rows = []\<rparr>) = 0"
proof -
  let ?df = "\<lparr>columns = cols, rows = []\<rparr>"
  have c: "check_consistency lib q \<lparr>columns = cs, rows = []\<rparr> = Inl ZeroDivisionError" for q cs
    by (simp add: check_consistency_def py_truediv_def len_df_def)
  have v: "check_validity lib qi ?df = Inl ZeroDivisionError"
    by (simp add: check_validity_def py_truediv_def len_df_def)
  have rows1: "rows (snd (check_completeness qi ?df)) = []"
    by (simp add: check_completeness_frame set_col_def)
  have "check_consistency lib (fst (check_completeness qi ?df)) (snd (check_completeness qi ?df))
          = Inl ZeroDivisionError"
    using rows1 c [of "fst (check_completeness qi ?df)" "columns (snd (check_completeness qi ?df))"]
    by (cases "snd (check_completeness qi ?df)") simp
  then have r: "run_all_checks lib qi ?df = Inl ZeroDivisionError"
    by (simp add: run_all_checks_def four_checks_def case_prod_beta)
  have p: "map_of (fst (check_completeness qi ?df)) ''completeness''
       = Some \<lparr>total_issues = 0, percentage = NaN,
               description = ''Missing values in critical columns: '',
               described_columns = completeness_columns ?df\<rparr>"
    by (simp add: check_completeness_def Let_def update_conv' missing_mask_def mask_sum_def
        np_truediv_def len_df_def)
  have s: "overall_quality_score (generate_quality_summary now qi ?df) = 0"
    by (simp add: generate_quality_summary_def len_df_def)
  from c v r p s show ?thesis by blast
qed

section \<open>The currency unit\<close>

lemmas str_defs = upper_letters_def lower_letters_def digit_chars_def is_upper_def is_lower_def
  is_digit_def is_c_space_def is_re_space_def upper_char_def py_upper_def py_isupper_def py_istitle_def
  int_str_def at_end_def company_char_def re_company_def re_currency_def months_def re_month_end_def
  re_fiscal_def re_industry_def

lemmas check_defs = present_def sub_check_def sub_check_try_def isnull_at_def cell_at_def
  company_issue_def operation_issue_def ipo_issue_def currency_issue_def consistency_flag_def

lemmas run_defs = run_all_checks_def four_checks_def check_completeness_def check_consistency_def
  check_validity_def check_uniqueness_def completeness_columns_def critical_columns_def
  missing_mask_def set_series_def set_col_def align_def astype_int_def mask_sum_def len_df_def
  np_truediv_def py_truediv_def validity_flag_def year_issue_def revenue_issue_def
  fiscal_issue_def industry_issue_def except_value_type_def float_overflow_def
  uniqueness_columns_def key_columns_def duplicated_all_def key_tuple_def startswith_def
  max_axis1_def select_cells_def row_max_def List.map_filter_def Let_def

lemma re_currency_iff:
  "re_currency u \<longleftrightarrow> (\<exists>a b c. is_upper a \<and> is_upper b \<and> is_upper c \<and> (u = [a, b, c] \<or> u = [a, b, c, CHR 0x0A]))"
  by (auto simp: re_currency_def at_end_def split: list.splits)

lemma upper_char_lower: "is_lower c \<Longrightarrow> is_upper (upper_char c)"
  by (auto simp: is_lower_def is_upper_def upper_char_def lower_letters_def upper_letters_def)

lemma consistency_column:
  assumes "wf_df df" "check_consistency lib qi df = Inr (qi', df')"
  shows "column df' ''flag_consistency'' = map (\<lambda>row. Some (IntV (consistency_flag lib (columns df) row))) (rows df)"
  using assms(1) check_consistency_frame(1) [OF assms(2)]
  by (simp add: column_set_col_same len_df_def comp_def)

lemma present_Some:
  "cell_at cols row name = Some v \<Longrightarrow> notna v \<Longrightarrow> present cols row name = Some v"
  by (auto simp: present_def cell_at_def dest!: map_of_SomeD set_zip_leftD)

text \<open>
  Claim C6, as the code has it. For a record whose \<^verbatim>\<open>unit_REVENUE\<close> is there and not
  missing, the currency sub-check reads the value in upper case: the record is flagged
  when the upper-cased text of the value is not exactly three letters A to Z (a line feed
  may follow them), or when another consistency sub-check fails, and in no other case.
  So a value of three lower-case letters passes the currency sub-check.
\<close>

theorem currency_unit_check:
  assumes "wf_df df" and "check_consistency lib qi df = Inr (qi', df')" and "i < len_df df"
    and "cell_at (columns df) (rows df ! i) ''unit_REVENUE'' = Some v" and "notna v"
  shows "column df' ''flag_consistency'' ! i =
           Some (IntV (if \<not> (\<exists>a b c. is_upper a \<and> is_upper b \<and> is_upper c
                                 \<and> (py_upper (py_str lib v) = [a, b, c]
                                      \<or> py_upper (py_str lib v) = [a, b, c, CHR 0x0A]))
                          \<or> sub_check (columns df) (rows df ! i) ''companynameofficial'' (company_issue lib)
                          \<or> sub_check (columns df) (rows df ! i) ''operationstatustype'' (operation_issue lib)
                          \<or> sub_check (columns df) (rows df ! i) ''ipostatustype'' (ipo_issue lib)
                       then 1 else 0))
         \<and> (\<forall>a b c. is_lower a \<and> is_lower b \<and> is_lower c \<longrightarrow> \<not> currency_issue lib (StrV [a, b, c]))"
proof -
  have cur: "sub_check (columns df) (rows df ! i) ''unit_REVENUE'' (currency_issue lib)
               = (\<not> re_currency (py_upper (py_str lib v)))"
    using assms(4,5) by (simp add: sub_check_def present_Some currency_issue_def)
  have "column df' ''flag_consistency'' ! i = Some (IntV (consistency_flag lib (columns df) (rows df ! i)))"
    using assms(3) by (simp add: consistency_column [OF assms(1,2)] len_df_def)
  then have first: "column df' ''flag_consistency'' ! i =
           Some (IntV (if \<not> (\<exists>a b c. is_upper a \<and> is_upper b \<and> is_upper c
                                 \<and> (py_upper (py_str lib v) = [a, b, c]
                                      \<or> py_upper (py_str lib v) = [a, b, c, CHR 0x0A]))
                          \<or> sub_check (columns df) (rows df ! i) ''companynameofficial'' (company_issue lib)
                          \<or> sub_check (columns df) (rows df ! i) ''operationstatustype'' (operation_issue lib)
                          \<or> sub_check (columns df) (rows df ! i) ''ipostatustype'' (ipo_issue lib)
                       then 1 else 0))"
    unfolding consistency_flag_def cur re_currency_iff by (simp cong: if_cong) 
  have second: "\<not> currency_issue lib (StrV [a, b, c])" if "is_lower a \<and> is_lower b \<and> is_lower c" for a b c
    using that by (simp add: currency_issue_def re_currency_iff py_upper_def upper_char_lower)
  from first second show ?thesis by blast
qed

text \<open>
  The theorem at a frame of two records: \<^verbatim>\<open>US$\<close> is flagged, and \<^verbatim>\<open>usd\<close> passes
  the sub-check.
\<close>

theorem currency_unit_check_witness:
  "\<forall>lib. \<exists>qi' df'.
     wf_df \<lparr>columns = [''unit_REVENUE''], rows = [[StrV ''usd''], [StrV ''US$'']]\<rparr>
     \<and> check_consistency lib [] \<lparr>columns = [''unit_REVENUE''], rows = [[StrV ''usd''], [StrV ''US$'']]\<rparr>
         = Inr (qi', df')
     \<and> 1 < len_df \<lparr>columns = [''unit_REVENUE''], rows = [[StrV ''usd''], [StrV ''US$'']]\<rparr>
     \<and> cell_at [''unit_REVENUE''] [StrV ''US$''] ''unit_REVENUE'' = Some (StrV ''US$'')
     \<and> notna (StrV ''US$'')
     \<and> column df' ''flag_consistency'' ! 1 = Some (IntV 1)
     \<and> \<not> currency_issue lib (StrV ''usd'')"
proof (intro allI)
  fix lib
  let ?df = "\<lparr>columns = [''unit_REVENUE''], rows = [[StrV ''usd''], [StrV ''US$'']]\<rparr>"
  have wf: "wf_df ?df" by (simp add: wf_df_def)
  obtain qi' df' where run: "check_consistency lib [] ?df = Inr (qi', df')"
    by (simp add: check_consistency_def Let_def py_truediv_def len_df_def)
  have i: "1 < len_df ?df" by (simp add: len_df_def)
  have c: "cell_at (columns ?df) (rows ?df ! 1) ''unit_REVENUE'' = Some (StrV ''US$'')"
    by (simp add: cell_at_def)
  have n: "notna (StrV ''US$'')" by simp
  note t = currency_unit_check [OF wf run i c n]
  have up: "py_upper (py_str lib (StrV ''US$'')) = ''US$''"
    by (simp add: py_upper_def upper_char_def lower_letters_def upper_letters_def)
  have no: "\<not> (\<exists>a b c. is_upper a \<and> is_upper b \<and> is_upper c
                  \<and> (py_upper (py_str lib (StrV ''US$'')) = [a, b, c]
                       \<or> py_upper (py_str lib (StrV ''US$'')) = [a, b, c, CHR 0x0A]))"
    unfolding up by (auto simp: is_upper_def upper_letters_def)
  have flag: "column df' ''flag_consistency'' ! 1 = Some (IntV 1)"
    using t no by simp
  have low: "\<not> currency_issue lib (StrV ''usd'')"
    using t by (simp add: is_lower_def lower_letters_def)
  from wf run i c n flag low
  show "\<exists>qi' df'. wf_df ?df \<and> check_consistency lib [] ?df = Inr (qi', df') \<and> 1 < len_df ?df
     \<and> cell_at [''unit_REVENUE''] [StrV ''US$''] ''unit_REVENUE'' = Some (StrV ''US$'')
     \<and> notna (StrV ''US$'')
     \<and> column df' ''flag_consistency'' ! 1 = Some (IntV 1)
     \<and> \<not> currency_issue lib (StrV ''usd'')"
    by (auto simp: cell_at_def)
qed

text \<open>
  Claim C6 as it is stated fails: the record whose currency is the lower-case \<^verbatim>\<open>usd\<close>
  gets the flag 0.
\<close>

theorem lower_case_currency_not_flagged:
  "\<forall>lib qi.
     map_sum id snd
       (check_consistency lib qi \<lparr>columns = [''unit_REVENUE''], rows = [[StrV ''usd'']]\<rparr>)
     = Inr \<lparr>columns = [''unit_REVENUE'', ''flag_consistency''], rows = [[StrV ''usd'', IntV 0]]\<rparr>"
  by (simp add: check_consistency_def Let_def py_truediv_def len_df_def set_col_def check_defs str_defs)

section \<open>The year\<close>

lemma map_result_nth:
  "map_result f xs = Inr ys \<Longrightarrow> i < length xs \<Longrightarrow> f (xs ! i) = Inr (ys ! i)"
  by (drule map_result_Inr) (metis length_map nth_map)

lemma validity_column:
  assumes "wf_df df" "check_validity lib qi df = Inr (qi', df')" "i < len_df df"
  obtains flag where "validity_flag lib (columns df) (rows df ! i) = Inr flag"
    and "column df' ''flag_validity'' ! i = Some (IntV flag)"
proof -
  from assms(2) obtain flags where m: "map_result (validity_flag lib (columns df)) (rows df) = Inr flags"
    and d: "df' = set_col ''flag_validity'' (map IntV flags) df"
    by (rule check_validity_frame)
  have l: "length flags = len_df df" using map_result_length [OF m] by (simp add: len_df_def)
  have "validity_flag lib (columns df) (rows df ! i) = Inr (flags ! i)"
    using map_result_nth [OF m] assms(3) by (simp add: len_df_def)
  moreover have "column df' ''flag_validity'' ! i = Some (IntV (flags ! i))"
    using assms(1,3) l by (simp add: d column_set_col_same)
  ultimately show ?thesis using that by blast
qed

lemma py_int_error:
  "py_int v = Inl e \<Longrightarrow> notna v \<Longrightarrow>
   e = ValueError \<or> (e = OverflowError \<and> (v = PosInfV \<or> v = NegInfV))"
  by (cases v) (auto split: option.splits)

lemma py_int_infinite: "v = PosInfV \<or> v = NegInfV \<Longrightarrow> py_int v = Inl OverflowError"
  by auto

lemma year_issue_eq:
  assumes "notna v"
  shows "year_issue v =
     (if v = PosInfV \<or> v = NegInfV then Inl OverflowError
      else Inr ((\<nexists>y. py_int v = Inr y) \<or> (\<exists>y. py_int v = Inr y \<and> (y < 1900 \<or> 2030 < y))))"
proof (cases "py_int v")
  case (Inl e)
  show ?thesis
  proof (cases "v = PosInfV \<or> v = NegInfV")
    case True
    then show ?thesis by (auto simp: year_issue_def except_value_type_def)
  next
    case False
    with py_int_error [OF Inl assms] have "e = ValueError" by simp
    with Inl False show ?thesis by (simp add: year_issue_def except_value_type_def)
  qed
next
  case (Inr y)
  then have "\<not> (v = PosInfV \<or> v = NegInfV)" by auto
  with Inr show ?thesis by (auto simp: year_issue_def except_value_type_def)
qed

text \<open>
  Claim C7. The claim asks that a record whose \<^verbatim>\<open>timevalue\<close> is there and not missing
  is flagged exactly when the value does not parse as an integer or the integer is
  outside 1900 to 2030. The code does so for every value but an infinite float:
  \<^verbatim>\<open>int\<close> raises OverflowError for it, the \<^verbatim>\<open>except\<close> clause names ValueError and
  TypeError only, and the error leaves \<^verbatim>\<open>check_validity\<close> with no record flagged.
\<close>

theorem infinite_year_raises:
  "py_int PosInfV = Inl OverflowError
   \<and> year_issue PosInfV = Inl OverflowError
   \<and> year_issue NegInfV = Inl OverflowError
   \<and> check_validity lib qi \<lparr>columns = [''timevalue''], rows = [[IntV 2019], [PosInfV]]\<rparr>
       = Inl OverflowError
   \<and> run_all_checks lib qi \<lparr>columns = [''timevalue''], rows = [[IntV 2019], [PosInfV]]\<rparr>
       = Inl OverflowError"
proof -
  have "check_validity lib qi \<lparr>columns = [''timevalue''], rows = [[IntV 2019], [PosInfV]]\<rparr>
       = Inl OverflowError"
    by (simp add: check_validity_def validity_flag_def sub_check_try_def sub_check_def present_def
        cell_at_def year_issue_def except_value_type_def)
  moreover have "run_all_checks lib qi \<lparr>columns = [''timevalue''], rows = [[IntV 2019], [PosInfV]]\<rparr>
       = Inl OverflowError"
    by (simp add: run_defs check_defs)
  moreover have "year_issue PosInfV = Inl OverflowError" "year_issue NegInfV = Inl OverflowError"
    by (simp_all add: year_issue_def except_value_type_def)
  ultimately show ?thesis by simp
qed

text \<open>
  Whenever \<^verbatim>\<open>check_validity\<close> returns, the \<^verbatim>\<open>timevalue\<close> of a record is no infinite
  float, and for a record whose \<^verbatim>\<open>timevalue\<close> is there and not missing
  \<^verbatim>\<open>flag_validity\<close> is 1 when \<^verbatim>\<open>int\<close> does not give an integer for the value, or the
  integer is outside 1900 to 2030, or one of the three other validity sub-checks fails,
  and 0 otherwise.
\<close>

theorem year_check:
  assumes "wf_df df" and "check_validity lib qi df = Inr (qi', df')" and "i < len_df df"
    and "cell_at (columns df) (rows df ! i) ''timevalue'' = Some v" and "notna v"
  shows "v \<noteq> PosInfV \<and> v \<noteq> NegInfV
       \<and> column df' ''flag_validity'' ! i =
           Some (IntV (if (\<nexists>y. py_int v = Inr y)
                          \<or> (\<exists>y. py_int v = Inr y \<and> (y < 1900 \<or> 2030 < y))
                          \<or> sub_check_try (columns df) (rows df ! i) ''REVENUE'' (revenue_issue lib) = Inr True
                          \<or> sub_check (columns df) (rows df ! i) ''fiscalperiodend'' (fiscal_issue lib)
                          \<or> sub_check (columns df) (rows df ! i) ''industrycode'' (industry_issue lib)
                       then 1 else 0))"
proof -
  from assms(1,2,3) obtain flag where f: "validity_flag lib (columns df) (rows df ! i) = Inr flag"
    and c: "column df' ''flag_validity'' ! i = Some (IntV flag)"
    by (rule validity_column)
  have yi: "sub_check_try (columns df) (rows df ! i) ''timevalue'' year_issue = year_issue v"
    using assms(4,5) by (simp add: sub_check_try_def present_Some)
  from f have "\<exists>b. year_issue v = Inr b"
    unfolding validity_flag_def yi by (auto split: sum.splits)
  then have fin: "\<not> (v = PosInfV \<or> v = NegInfV)"
    using year_issue_eq [OF assms(5)] by auto
  then have y: "sub_check_try (columns df) (rows df ! i) ''timevalue'' year_issue
             = Inr ((\<nexists>y. py_int v = Inr y) \<or> (\<exists>y. py_int v = Inr y \<and> (y < 1900 \<or> 2030 < y)))"
    unfolding yi using year_issue_eq [OF assms(5)] by simp
  have "column df' ''flag_validity'' ! i =
           Some (IntV (if (\<nexists>y. py_int v = Inr y)
                          \<or> (\<exists>y. py_int v = Inr y \<and> (y < 1900 \<or> 2030 < y))
                          \<or> sub_check_try (columns df) (rows df ! i) ''REVENUE'' (revenue_issue lib) = Inr True
                          \<or> sub_check (columns df) (rows df ! i) ''fiscalperiodend'' (fiscal_issue lib)
                          \<or> sub_check (columns df) (rows df ! i) ''industrycode'' (industry_issue lib)
                       then 1 else 0))"
    using f unfolding c validity_flag_def y
    by (auto split: sum.splits)
  with fin show ?thesis by simp
qed

text \<open>
  The theorem at the years 2019 (not flagged), 1850 (flagged) and a text that is no
  integer (flagged).
\<close>

theorem year_check_witness:
  "\<forall>lib. \<exists>qi' df'.
     wf_df \<lparr>columns = [''timevalue''], rows = [[IntV 2019], [IntV 1850], [StrV ''20x9'']]\<rparr>
     \<and> check_validity lib [] \<lparr>columns = [''timevalue''], rows = [[IntV 2019], [IntV 1850], [StrV ''20x9'']]\<rparr>
         = Inr (qi', df')
     \<and> column df' ''flag_validity'' ! 0 = Some (IntV 0)
     \<and> column df' ''flag_validity'' ! 1 = Some (IntV 1)
     \<and> column df' ''flag_validity'' ! 2 = Some (IntV 1)"
proof (intro allI)
  fix lib
  let ?df = "\<lparr>columns = [''timevalue''], rows = [[IntV 2019], [IntV 1850], [StrV ''20x9'']]\<rparr>"
  have wf: "wf_df ?df" by (simp add: wf_df_def)
  obtain qi' df' where run: "check_validity lib [] ?df = Inr (qi', df')"
    by (simp add: check_validity_def validity_flag_def sub_check_try_def sub_check_def present_def
        cell_at_def year_issue_def except_value_type_def int_of_text_def strip_space_def
        is_c_space_def unsigned_of_text_def is_digit_def digit_chars_def
        Let_def py_truediv_def len_df_def)
  have others:
    "sub_check_try (columns ?df) row ''REVENUE'' (revenue_issue lib) = Inr False"
    "\<not> sub_check (columns ?df) row ''fiscalperiodend'' (fiscal_issue lib)"
    "\<not> sub_check (columns ?df) row ''industrycode'' (industry_issue lib)" for row
    by (simp_all add: sub_check_try_def sub_check_def present_def)
  have "column df' ''flag_validity'' ! 0 = Some (IntV 0)"
    using year_check [OF wf run, of 0 "IntV 2019"] others
    by (simp add: len_df_def cell_at_def)
  moreover have "column df' ''flag_validity'' ! 1 = Some (IntV 1)"
    using year_check [OF wf run, of 1 "IntV 1850"] others
    by (simp add: len_df_def cell_at_def)
  moreover have "column df' ''flag_validity'' ! 2 = Some (IntV 1)"
    using year_check [OF wf run, of 2 "StrV ''20x9''"] others
    by (simp add: len_df_def cell_at_def int_of_text_def strip_space_def
        is_c_space_def unsigned_of_text_def is_digit_def digit_chars_def)
  ultimately show "\<exists>qi' df'. wf_df ?df \<and> check_validity lib [] ?df = Inr (qi', df')
     \<and> column df' ''flag_validity'' ! 0 = Some (IntV 0)
     \<and> column df' ''flag_validity'' ! 1 = Some (IntV 1)
     \<and> column df' ''flag_validity'' ! 2 = Some (IntV 1)"
    using wf run by blast
qed

section \<open>Completeness of a record\<close>

lemma completeness_column:
  assumes "wf_df df"
  shows "column (snd (check_completeness qi df)) ''flag_completeness''
         = map (\<lambda>row. Some (IntV (if \<exists>col\<in>set (completeness_columns df). isnull_at (columns df) row col
                                    then 1 else 0))) (rows df)"
  using assms
  by (simp add: check_completeness_frame column_set_col_same astype_int_def length_missing_mask
      missing_mask_def list_ex_iff comp_def len_df_def)

text \<open>
  Claim C4. When the schema has a critical column, \<^verbatim>\<open>flag_completeness\<close> of a record is
  1 exactly when a critical column of the schema is missing in the record; when it has
  none, the flag is 1 exactly when one of the first \<open>min 4 (number of columns)\<close>
  columns is missing in the record.
\<close>

theorem completeness_flag:
  assumes "wf_df df" and "i < len_df df" and "check_completeness qi df = (qi', df')"
  shows "((\<exists>c\<in>set critical_columns. c \<in> set (columns df)) \<longrightarrow>
            column df' ''flag_completeness'' ! i =
              Some (IntV (if \<exists>c\<in>set critical_columns. c \<in> set (columns df)
                                \<and> isnull_at (columns df) (rows df ! i) c
                          then 1 else 0)))
         \<and> ((\<forall>c\<in>set critical_columns. c \<notin> set (columns df)) \<longrightarrow>
            column df' ''flag_completeness'' ! i =
              Some (IntV (if \<exists>c\<in>set (take (min 4 (length (columns df))) (columns df)).
                                isnull_at (columns df) (rows df ! i) c
                          then 1 else 0)))"
proof -
  have df': "df' = snd (check_completeness qi df)" using assms(3) by simp
  have col: "column df' ''flag_completeness'' ! i =
      Some (IntV (if \<exists>col\<in>set (completeness_columns df). isnull_at (columns df) (rows df ! i) col
                  then 1 else 0))"
    using assms(2) unfolding df' completeness_column [OF assms(1)] by (simp add: len_df_def)
  have none: "completeness_columns df = take (min 4 (length (columns df))) (columns df)"
    if "\<forall>c\<in>set critical_columns. c \<notin> set (columns df)"
    using that by (simp add: completeness_columns_def filter_empty_conv)
  have some: "set (completeness_columns df) = {c \<in> set critical_columns. c \<in> set (columns df)}"
    if "\<exists>c\<in>set critical_columns. c \<in> set (columns df)"
  proof -
    have "filter (\<lambda>col. col \<in> set (columns df)) critical_columns \<noteq> []"
      using that by (simp add: filter_empty_conv)
    then show ?thesis by (simp add: completeness_columns_def)
  qed
  show ?thesis
  proof (intro conjI impI)
    assume a: "\<exists>c\<in>set critical_columns. c \<in> set (columns df)"
    have "(\<exists>col\<in>set (completeness_columns df). isnull_at (columns df) (rows df ! i) col)
        = (\<exists>c\<in>set critical_columns. c \<in> set (columns df) \<and> isnull_at (columns df) (rows df ! i) c)"
      unfolding some [OF a] by blast
    then show "column df' ''flag_completeness'' ! i =
              Some (IntV (if \<exists>c\<in>set critical_columns. c \<in> set (columns df)
                                \<and> isnull_at (columns df) (rows df ! i) c
                          then 1 else 0))"
      using col by simp
  next
    assume a: "\<forall>c\<in>set critical_columns. c \<notin> set (columns df)"
    show "column df' ''flag_completeness'' ! i =
              Some (IntV (if \<exists>c\<in>set (take (min 4 (length (columns df))) (columns df)).
                                isnull_at (columns df) (rows df ! i) c
                          then 1 else 0))"
      using col unfolding none [OF a] .
  qed
qed

text \<open>
  The theorem at a frame with two critical columns, and at a frame with none and five
  columns, of which the fifth is not read.
\<close>

theorem completeness_flag_witness:
  "\<exists>qi' df' qi2' df2'.
     wf_df \<lparr>columns = [''timevalue'', ''REVENUE'', ''note''], rows = [[IntV 2019, Null, Null], [IntV 2020, IntV 5, Null]]\<rparr>
   \<and> check_completeness [] \<lparr>columns = [''timevalue'', ''REVENUE'', ''note''], rows = [[IntV 2019, Null, Null], [IntV 2020, IntV 5, Null]]\<rparr>
       = (qi', df')
   \<and> column df' ''flag_completeness'' ! 0 = Some (IntV 1)
   \<and> column df' ''flag_completeness'' ! 1 = Some (IntV 0)
   \<and> wf_df \<lparr>columns = [''a'', ''b'', ''c'', ''d'', ''e''], rows = [[IntV 1, IntV 1, IntV 1, Null, IntV 1], [IntV 1, IntV 1, IntV 1, IntV 1, Null]]\<rparr>
   \<and> check_completeness [] \<lparr>columns = [''a'', ''b'', ''c'', ''d'', ''e''], rows = [[IntV 1, IntV 1, IntV 1, Null, IntV 1], [IntV 1, IntV 1, IntV 1, IntV 1, Null]]\<rparr>
       = (qi2', df2')
   \<and> column df2' ''flag_completeness'' ! 0 = Some (IntV 1)
   \<and> column df2' ''flag_completeness'' ! 1 = Some (IntV 0)"
proof -
  let ?d1 = "\<lparr>columns = [''timevalue'', ''REVENUE'', ''note''], rows = [[IntV 2019, Null, Null], [IntV 2020, IntV 5, Null]]\<rparr>"
  let ?d2 = "\<lparr>columns = [''a'', ''b'', ''c'', ''d'', ''e''], rows = [[IntV 1, IntV 1, IntV 1, Null, IntV 1], [IntV 1, IntV 1, IntV 1, IntV 1, Null]]\<rparr>"
  have wf1: "wf_df ?d1" and wf2: "wf_df ?d2" by (simp_all add: wf_df_def)
  obtain qi' df' where r1: "check_completeness [] ?d1 = (qi', df')" by (cases "check_completeness [] ?d1")
  obtain qi2' df2' where r2: "check_completeness [] ?d2 = (qi2', df2')" by (cases "check_completeness [] ?d2")
  have a: "column df' ''flag_completeness'' ! 0 = Some (IntV 1)"
    using completeness_flag [OF wf1 _ r1, of 0]
    by (simp add: len_df_def critical_columns_def isnull_at_def cell_at_def)
  have b: "column df' ''flag_completeness'' ! 1 = Some (IntV 0)"
    using completeness_flag [OF wf1 _ r1, of 1]
    by (simp add: len_df_def critical_columns_def isnull_at_def cell_at_def)
  have c: "column df2' ''flag_completeness'' ! 0 = Some (IntV 1)"
    using completeness_flag [OF wf2 _ r2, of 0]
    by (simp add: len_df_def critical_columns_def isnull_at_def cell_at_def)
  have d: "column df2' ''flag_completeness'' ! 1 = Some (IntV 0)"
    using completeness_flag [OF wf2 _ r2, of 1]
    by (simp add: len_df_def critical_columns_def isnull_at_def cell_at_def)
  from wf1 wf2 r1 r2 a b c d show ?thesis by blast
qed

section \<open>The quality score\<close>

lemma mask_sum_bounds: "0 \<le> mask_sum bs \<and> mask_sum bs \<le> int (length bs)"
  by (simp add: mask_sum_def)

lemma consistency_flag_01: "consistency_flag lib cols row = 0 \<or> consistency_flag lib cols row = 1"
  by (simp add: consistency_flag_def)

lemma validity_flag_01: "validity_flag lib cols row = Inr f \<Longrightarrow> f = 0 \<or> f = 1"
  by (auto simp: validity_flag_def split: sum.splits if_splits)

lemma sum_list_01_bounds:
  "\<forall>x\<in>set xs. x = 0 \<or> x = (1::int) \<Longrightarrow> 0 \<le> sum_list xs \<and> sum_list xs \<le> int (length xs)"
  by (induction xs) auto

lemma map_result_set:
  "map_result f xs = Inr ys \<Longrightarrow> y \<in> set ys \<Longrightarrow> \<exists>x\<in>set xs. f x = Inr y"
  by (induction xs arbitrary: ys) (auto split: sum.splits)

lemma duplicated_all_length:
  "duplicated_all df ks = Inr dup \<Longrightarrow> length dup \<le> len_df df"
  by (auto simp: duplicated_all_def len_df_def Let_def split: if_splits)

lemma check_completeness_result:
  assumes "check_completeness qi df = (qi', df')"
  obtains r where "qi' = AList.update ''completeness'' r qi" and "0 \<le> total_issues r"
    and "total_issues r \<le> int (len_df df)" and "len_df df' = len_df df"
proof -
  let ?m = "missing_mask df (completeness_columns df)"
  have "len_df df' = len_df df"
    using assms check_completeness_frame [of qi df]
    by (simp add: len_df_set_col astype_int_def length_missing_mask)
  moreover have "0 \<le> mask_sum ?m \<and> mask_sum ?m \<le> int (len_df df)"
    using mask_sum_bounds [of ?m] by (simp add: length_missing_mask)
  ultimately show ?thesis
    using assms that by (auto simp: check_completeness_def Let_def)
qed

lemma check_consistency_result:
  assumes "check_consistency lib qi df = Inr (qi', df')"
  obtains r where "qi' = AList.update ''consistency'' r qi" and "0 \<le> total_issues r"
    and "total_issues r \<le> int (len_df df)" and "len_df df' = len_df df" and "0 < len_df df"
proof -
  let ?fs = "map (consistency_flag lib (columns df)) (rows df)"
  have b: "0 \<le> sum_list ?fs \<and> sum_list ?fs \<le> int (len_df df)"
    using sum_list_01_bounds [of ?fs] consistency_flag_01 by (auto simp: len_df_def)
  have "len_df df' = len_df df" "0 < len_df df"
    using check_consistency_frame [OF assms] by (simp_all add: length_rows_set_col len_df_def)
  with b show ?thesis
    using assms that
    by (auto simp: check_consistency_def Let_def py_truediv_def split: if_splits)
qed

lemma check_validity_result:
  assumes "check_validity lib qi df = Inr (qi', df')"
  obtains r where "qi' = AList.update ''validity'' r qi" and "0 \<le> total_issues r"
    and "total_issues r \<le> int (len_df df)" and "len_df df' = len_df df"
proof -
  from assms obtain flags where m: "map_result (validity_flag lib (columns df)) (rows df) = Inr flags"
    and d: "df' = set_col ''flag_validity'' (map IntV flags) df"
    by (rule check_validity_frame)
  have l: "length flags = len_df df" using map_result_length [OF m] by (simp add: len_df_def)
  have "\<forall>x\<in>set flags. x = 0 \<or> x = 1"
    using map_result_set [OF m] validity_flag_01 by blast
  then have b: "0 \<le> sum_list flags \<and> sum_list flags \<le> int (len_df df)"
    using sum_list_01_bounds [of flags] l by simp
  have "len_df df' = len_df df" using d l by (simp add: len_df_set_col)
  with b show ?thesis
    using assms m that
    by (auto simp: check_validity_def Let_def py_truediv_def split: if_splits)
qed

lemma check_uniqueness_result:
  assumes "check_uniqueness qi df = Inr (qi', df')"
  obtains r where "qi' = AList.update ''uniqueness'' r qi" and "0 \<le> total_issues r"
    and "total_issues r \<le> int (len_df df)" and "len_df df' = len_df df"
proof -
  from assms obtain dup where m: "duplicated_all df (uniqueness_columns df) = Inr dup"
    and d: "df' = set_col ''flag_uniqueness'' (align (len_df df) (astype_int dup)) df"
    by (rule check_uniqueness_frame)
  have b: "0 \<le> mask_sum dup \<and> mask_sum dup \<le> int (len_df df)"
    using mask_sum_bounds [of dup] duplicated_all_length [OF m] by simp
  have "len_df df' = len_df df" using d by (simp add: len_df_set_col length_align)
  with b show ?thesis
    using assms m that
    by (auto simp: check_uniqueness_def Let_def)
qed

lemma sum_list_alist:
  "distinct (map fst al) \<Longrightarrow>
   sum_list (map (\<lambda>(k, v). g v) al) = (\<Sum>k\<in>set (map fst al). g (the (map_of al k)))"
proof (induction al)
  case Nil
  then show ?case by simp
next
  case (Cons p al)
  obtain k v where p: "p = (k, v)" by (cases p)
  have k: "k \<notin> set (map fst al)" and d: "distinct (map fst al)" using Cons.prems p by auto
  have "(\<Sum>x\<in>set (map fst al). g (the (map_of (p # al) x))) = (\<Sum>x\<in>set (map fst al). g (the (map_of al x)))"
    by (rule sum.cong) (use k p in auto)
  then show ?case using Cons.IH [OF d] k p by simp
qed

lemma four_checks_results:
  assumes "four_checks lib qi0 df = Inr (qi, df4)"
  obtains c s v u where
    "qi = AList.update ''uniqueness'' u (AList.update ''validity'' v
            (AList.update ''consistency'' s (AList.update ''completeness'' c qi0)))"
    and "0 \<le> total_issues c \<and> total_issues c \<le> int (len_df df)"
    and "0 \<le> total_issues s \<and> total_issues s \<le> int (len_df df)"
    and "0 \<le> total_issues v \<and> total_issues v \<le> int (len_df df)"
    and "0 \<le> total_issues u \<and> total_issues u \<le> int (len_df df)"
    and "len_df df4 = len_df df" and "0 < len_df df"
proof -
  obtain qi1 df1 where e1: "check_completeness qi0 df = (qi1, df1)" by (cases "check_completeness qi0 df")
  from assms e1 obtain qi2 df2 where e2: "check_consistency lib qi1 df1 = Inr (qi2, df2)"
    by (auto simp: four_checks_def split: sum.splits)
  from assms e1 e2 obtain qi3 df3 where e3: "check_validity lib qi2 df2 = Inr (qi3, df3)"
    by (auto simp: four_checks_def split: sum.splits)
  from assms e1 e2 e3 have e4: "check_uniqueness qi3 df3 = Inr (qi, df4)"
    by (simp add: four_checks_def)
  from e1 obtain c where c: "qi1 = AList.update ''completeness'' c qi0" "0 \<le> total_issues c"
    "total_issues c \<le> int (len_df df)" "len_df df1 = len_df df"
    by (rule check_completeness_result)
  from e2 obtain s where s: "qi2 = AList.update ''consistency'' s qi1" "0 \<le> total_issues s"
    "total_issues s \<le> int (len_df df1)" "len_df df2 = len_df df1" "0 < len_df df1"
    by (rule check_consistency_result)
  from e3 obtain v where v: "qi3 = AList.update ''validity'' v qi2" "0 \<le> total_issues v"
    "total_issues v \<le> int (len_df df2)" "len_df df3 = len_df df2"
    by (rule check_validity_result)
  from e4 obtain u where u: "qi = AList.update ''uniqueness'' u qi3" "0 \<le> total_issues u"
    "total_issues u \<le> int (len_df df3)" "len_df df4 = len_df df3"
    by (rule check_uniqueness_result)
  show ?thesis
    by (rule that [of u v s c]) (use c s v u in simp_all)
qed

lemma run_all_checks_four:
  assumes "run_all_checks lib qi0 df = Inr (qi, df')"
  obtains df4 overall where "four_checks lib qi0 df = Inr (qi, df4)"
    and "max_axis1 df4 (filter (startswith ''flag_'') (columns df4)) = Inr overall"
    and "df' = set_series ''flag_overall'' overall df4"
  using assms
  by (auto simp: run_all_checks_def Let_def split: sum.splits)

lemma len_df_set_series: "len_df (set_series name vals df) = len_df df"
  by (simp add: set_series_def len_df_set_col length_align)

lemma keys_update: "set (map fst (AList.update k v al)) = insert k (set (map fst al))"
  by (simp add: dom_update)

lemma score_bounds:
  fixes t n :: int
  assumes "0 \<le> t" "t \<le> 4 * n" "0 < n"
  shows "(0::rat) \<le> 100 - of_int t / of_int (n * 4) * 100" "100 - of_int t / of_int (n * 4) * 100 \<le> (100::rat)"
proof -
  have n: "(0::rat) < of_int (n * 4)" using assms(3) by simp
  have "t \<le> n * 4" using assms(2) by simp
  then have "(of_int t :: rat) \<le> of_int (n * 4)" by (simp only: of_int_le_iff)
  then have "(of_int t :: rat) / of_int (n * 4) \<le> 1" using n by (simp add: divide_le_eq)
  then show "(0::rat) \<le> 100 - of_int t / of_int (n * 4) * 100" by simp
  have "(0::rat) \<le> of_int t / of_int (n * 4)" using assms(1) n by simp
  then show "100 - of_int t / of_int (n * 4) * 100 \<le> (100::rat)" by simp
qed

text \<open>
  Claim C3. After \<^verbatim>\<open>run_all_checks\<close> has returned, on a checker whose dictionary held
  nothing but results of the four dimensions before, the dictionary has the four results
  and the score of the summary is \<open>max 0 (100 - issues / (records * 4) * 100)\<close>, with
  \<open>issues\<close> the sum of the four \<^verbatim>\<open>total_issues\<close>; the score is between 0 and 100.
  (Divisions are exact here; rounding to a float keeps a quotient of \<open>0 \<le> a \<le> b\<close>
  within 0 and 1, so the bounds do not depend on it.)
\<close>

theorem overall_quality_score_formula:
  assumes "run_all_checks lib qi0 df = Inr (qi, df')"
    and "distinct (map fst qi0)" and "set (map fst qi0) \<subseteq> set dimension_names"
  shows "\<exists>c s v u.
           map_of qi ''completeness'' = Some c \<and> map_of qi ''consistency'' = Some s
           \<and> map_of qi ''validity'' = Some v \<and> map_of qi ''uniqueness'' = Some u
           \<and> length qi = 4
           \<and> overall_quality_score (generate_quality_summary now qi df')
               = max 0 (100 - of_int (total_issues c + total_issues s + total_issues v + total_issues u)
                               / of_int (int (len_df df') * 4) * 100)
           \<and> 0 \<le> overall_quality_score (generate_quality_summary now qi df')
           \<and> overall_quality_score (generate_quality_summary now qi df') \<le> 100"
proof -
  from assms(1) obtain df4 overall where f: "four_checks lib qi0 df = Inr (qi, df4)"
    and df': "df' = set_series ''flag_overall'' overall df4"
    by (rule run_all_checks_four)
  from f obtain c s v u where
    qi: "qi = AList.update ''uniqueness'' u (AList.update ''validity'' v
            (AList.update ''consistency'' s (AList.update ''completeness'' c qi0)))"
    and bc: "0 \<le> total_issues c \<and> total_issues c \<le> int (len_df df)"
    and bs: "0 \<le> total_issues s \<and> total_issues s \<le> int (len_df df)"
    and bv: "0 \<le> total_issues v \<and> total_issues v \<le> int (len_df df)"
    and bu: "0 \<le> total_issues u \<and> total_issues u \<le> int (len_df df)"
    and len4: "len_df df4 = len_df df" and pos: "0 < len_df df"
    by (rule four_checks_results)
  have len: "len_df df' = len_df df" using df' len4 by (simp add: len_df_set_series)
  have d: "distinct (map fst qi)" unfolding qi using assms(2) by (simp add: distinct_update)
  have keys: "set (map fst qi) = {''completeness'', ''consistency'', ''validity'', ''uniqueness''}"
    using assms(3) unfolding qi keys_update dimension_names_def by auto
  have m: "map_of qi ''completeness'' = Some c" "map_of qi ''consistency'' = Some s"
    "map_of qi ''validity'' = Some v" "map_of qi ''uniqueness'' = Some u"
    unfolding qi by (simp_all add: update_conv')
  have "length qi = card (set (map fst qi))" using distinct_card [OF d] by simp
  then have l: "length qi = 4" unfolding keys by simp
  have sum: "sum_list (map (\<lambda>(name, measure). total_issues measure) qi)
      = total_issues c + total_issues s + total_issues v + total_issues u"
    unfolding sum_list_alist [OF d] keys using m by simp
  let ?t = "total_issues c + total_issues s + total_issues v + total_issues u"
  have score: "overall_quality_score (generate_quality_summary now qi df')
      = max 0 (100 - of_int ?t / of_int (int (len_df df') * 4) * 100)"
  proof -
    have g: "overall_quality_score (generate_quality_summary now qi df')
      = (if 0 < int (len_df df') * int (length qi)
         then max 0 (100 - (of_int (sum_list (map (\<lambda>(name, measure). total_issues measure) qi))
                            / of_int (int (len_df df') * int (length qi)) * 100))
         else 0)"
      by (simp only: generate_quality_summary_def Let_def summary.select_convs)
    have pos': "0 < int (len_df df') * 4" using pos len by simp
    show ?thesis unfolding g sum l of_nat_numeral using pos' by (simp only: if_True)
  qed
  have t: "0 \<le> ?t" "?t \<le> 4 * int (len_df df)" using bc bs bv bu by simp_all
  have "(0::rat) \<le> max 0 (100 - of_int ?t / of_int (int (len_df df') * 4) * 100)" by simp
  moreover have "max 0 (100 - of_int ?t / of_int (int (len_df df') * 4) * 100) \<le> (100::rat)"
    using score_bounds(2) [OF t] pos unfolding len by simp
  ultimately show ?thesis using m l score by simp
qed

text \<open>
  The theorem at a frame of two records with one completeness and one validity issue:
  the score is \<open>100 - 2 / 8 * 100 = 75\<close>.
\<close>

theorem overall_quality_score_formula_witness:
  "\<forall>lib. \<exists>qi df'.
     run_all_checks lib [] \<lparr>columns = [''timevalue'', ''REVENUE''], rows = [[IntV 2019, IntV 5], [IntV 1850, Null]]\<rparr>
       = Inr (qi, df')
     \<and> distinct (map fst ([] :: quality_issues))
     \<and> set (map fst ([] :: quality_issues)) \<subseteq> set dimension_names
     \<and> len_df df' = 2
     \<and> overall_quality_score (generate_quality_summary ''2024-05-01T12:00:00'' qi df') = 75"
proof (intro allI)
  fix lib
  let ?df = "\<lparr>columns = [''timevalue'', ''REVENUE''], rows = [[IntV 2019, IntV 5], [IntV 1850, Null]]\<rparr>"
  let ?qi = "[(''completeness'',
        \<lparr>total_issues = 1, percentage = Fin 50,
           description = ''Missing values in critical columns: '',
           described_columns = [''timevalue'', ''REVENUE'']\<rparr>),
       (''consistency'',
        \<lparr>total_issues = 0, percentage = Fin 0,
           description =
             ''Inconsistent formatting in company names, status types, or currency codes'',
           described_columns = []\<rparr>),
       (''validity'',
        \<lparr>total_issues = 1, percentage = Fin 50,
           description =
             ''Invalid data ranges, formats, or values detected'',
           described_columns = []\<rparr>),
       (''uniqueness'',
        \<lparr>total_issues = 0, percentage = Fin 0,
           description = ''Duplicate records based on columns: '',
           described_columns = [''timevalue'']\<rparr>)]"
  let ?df' = "\<lparr>columns =
         [''timevalue'', ''REVENUE'', ''flag_completeness'', ''flag_consistency'', ''flag_validity'',
          ''flag_uniqueness'', ''flag_overall''],
         rows =
           [[IntV 2019, IntV 5, IntV 0, IntV 0, IntV 0, IntV 0, IntV 0],
            [IntV 1850, Null, IntV 1, IntV 0, IntV 1, IntV 0, IntV 1]]\<rparr>"
  have run: "run_all_checks lib [] ?df = Inr (?qi, ?df')"
    by (simp add: run_defs check_defs)
  have k: "distinct (map fst ([] :: quality_issues))"
    "set (map fst ([] :: quality_issues)) \<subseteq> set dimension_names"
    by simp_all
  from overall_quality_score_formula [OF run k, of "''2024-05-01T12:00:00''"]
  have "overall_quality_score (generate_quality_summary ''2024-05-01T12:00:00'' ?qi ?df') = 75"
    by (auto simp: len_df_def)
  then show "\<exists>qi df'. run_all_checks lib [] ?df = Inr (qi, df')
     \<and> distinct (map fst ([] :: quality_issues))
     \<and> set (map fst ([] :: quality_issues)) \<subseteq> set dimension_names
     \<and> len_df df' = 2
     \<and> overall_quality_score (generate_quality_summary ''2024-05-01T12:00:00'' qi df') = 75"
    using run by (simp add: len_df_def)
qed

section \<open>Duplicate records\<close>





lemma key_value_eq_iff:
  "key_value single a = key_value single b \<longleftrightarrow>
     a = b \<or> (\<exists>i. a = IntV i \<and> b = FloatV (of_int i)) \<or> (\<exists>i. a = FloatV (of_int i) \<and> b = IntV i)
     \<or> (\<not> single \<and> \<not> notna a \<and> \<not> notna b)"
  by (cases a; cases b) auto



section \<open>What the evaluators leave unchanged\<close>

lemma set_col_frame:
  assumes "wf_df df" and "length vals = len_df df"
  shows "columns (set_col f vals df) = (if f \<in> set (columns df) then columns df else columns df @ [f])
         \<and> len_df (set_col f vals df) = len_df df
         \<and> (\<forall>name. name \<noteq> f \<longrightarrow> column (set_col f vals df) name = column df name)"
  using assms by (simp add: columns_set_col len_df_set_col column_set_col_other)

lemma check_completeness_writes:
  obtains vals where "snd (check_completeness qi df) = set_col ''flag_completeness'' vals df"
    and "length vals = len_df df" and "\<forall>v\<in>set vals. v = IntV 0 \<or> v = IntV 1"
proof
  show "snd (check_completeness qi df) =
     set_col ''flag_completeness'' (astype_int (missing_mask df (completeness_columns df))) df"
    by (rule check_completeness_frame)
  show "length (astype_int (missing_mask df (completeness_columns df))) = len_df df"
    by (simp add: astype_int_def length_missing_mask)
  show "\<forall>v\<in>set (astype_int (missing_mask df (completeness_columns df))). v = IntV 0 \<or> v = IntV 1"
    by (auto simp: astype_int_def)
qed

lemma check_consistency_writes:
  assumes "check_consistency lib qi df = Inr (qi', df')"
  obtains vals where "df' = set_col ''flag_consistency'' vals df"
    and "length vals = len_df df" and "\<forall>v\<in>set vals. v = IntV 0 \<or> v = IntV 1"
proof
  let ?vals = "map IntV (map (consistency_flag lib (columns df)) (rows df))"
  show "df' = set_col ''flag_consistency'' ?vals df" by (rule check_consistency_frame(1) [OF assms])
  show "length ?vals = len_df df" by (simp add: len_df_def)
  show "\<forall>v\<in>set ?vals. v = IntV 0 \<or> v = IntV 1" using consistency_flag_01 by auto
qed

lemma check_validity_writes:
  assumes "check_validity lib qi df = Inr (qi', df')"
  obtains vals where "df' = set_col ''flag_validity'' vals df"
    and "length vals = len_df df" and "\<forall>v\<in>set vals. v = IntV 0 \<or> v = IntV 1"
proof -
  from assms obtain flags where m: "map_result (validity_flag lib (columns df)) (rows df) = Inr flags"
    and d: "df' = set_col ''flag_validity'' (map IntV flags) df"
    by (rule check_validity_frame)
  have "length (map IntV flags) = len_df df" using map_result_length [OF m] by (simp add: len_df_def)
  moreover have "\<forall>v\<in>set (map IntV flags). v = IntV 0 \<or> v = IntV 1"
    using map_result_set [OF m] validity_flag_01 by fastforce
  ultimately show ?thesis using d that by blast
qed

lemma check_uniqueness_writes:
  assumes "check_uniqueness qi df = Inr (qi', df')"
  obtains vals where "df' = set_col ''flag_uniqueness'' vals df"
    and "length vals = len_df df" and "columns df \<noteq> [] \<longrightarrow> (\<forall>v\<in>set vals. v = IntV 0 \<or> v = IntV 1)"
proof -
  from assms obtain dup where m: "duplicated_all df (uniqueness_columns df) = Inr dup"
    and d: "df' = set_col ''flag_uniqueness'' (align (len_df df) (astype_int dup)) df"
    by (rule check_uniqueness_frame)
  have l: "length (align (len_df df) (astype_int dup)) = len_df df" by (rule length_align)
  have "\<forall>v\<in>set (align (len_df df) (astype_int dup)). v = IntV 0 \<or> v = IntV 1" if "columns df \<noteq> []"
  proof -
    have "length dup = len_df df"
      using m that by (auto simp: duplicated_all_def Let_def len_df_def split: if_splits)
    then have "align (len_df df) (astype_int dup) = astype_int dup"
      by (simp add: align_same astype_int_def)
    then show ?thesis by (auto simp: astype_int_def)
  qed
  with d l that show ?thesis by blast
qed

text \<open>
  Claim C10, as the code has it. Each evaluator leaves the number of records and every
  column but its own flag column as they were, in name, order and values. Its flag column
  is appended after the last column when the frame has no column of that name, and
  overwritten where it stands when it has one.
\<close>

theorem evaluators_frame:
  assumes "wf_df df"
  shows "(check_completeness qi df = (qi', df') \<longrightarrow>
            columns df' = (if ''flag_completeness'' \<in> set (columns df) then columns df
                           else columns df @ [''flag_completeness''])
            \<and> len_df df' = len_df df
            \<and> (\<forall>name. name \<noteq> ''flag_completeness'' \<longrightarrow> column df' name = column df name))
       \<and> (check_consistency lib qi df = Inr (qi', df') \<longrightarrow>
            columns df' = (if ''flag_consistency'' \<in> set (columns df) then columns df
                           else columns df @ [''flag_consistency''])
            \<and> len_df df' = len_df df
            \<and> (\<forall>name. name \<noteq> ''flag_consistency'' \<longrightarrow> column df' name = column df name))
       \<and> (check_validity lib qi df = Inr (qi', df') \<longrightarrow>
            columns df' = (if ''flag_validity'' \<in> set (columns df) then columns df
                           else columns df @ [''flag_validity''])
            \<and> len_df df' = len_df df
            \<and> (\<forall>name. name \<noteq> ''flag_validity'' \<longrightarrow> column df' name = column df name))
       \<and> (check_uniqueness qi df = Inr (qi', df') \<longrightarrow>
            columns df' = (if ''flag_uniqueness'' \<in> set (columns df) then columns df
                           else columns df @ [''flag_uniqueness''])
            \<and> len_df df' = len_df df
            \<and> (\<forall>name. name \<noteq> ''flag_uniqueness'' \<longrightarrow> column df' name = column df name))"
proof (intro conjI impI)
  assume "check_completeness qi df = (qi', df')"
  then have df': "df' = snd (check_completeness qi df)" by simp
  obtain vals where "df' = set_col ''flag_completeness'' vals df" "length vals = len_df df"
    unfolding df' by (rule check_completeness_writes)
  with set_col_frame [OF assms, of vals "''flag_completeness''"]
  show "columns df' = (if ''flag_completeness'' \<in> set (columns df) then columns df
                           else columns df @ [''flag_completeness''])"
    and "len_df df' = len_df df"
    and "\<forall>name. name \<noteq> ''flag_completeness'' \<longrightarrow> column df' name = column df name"
    by simp_all
next
  assume "check_consistency lib qi df = Inr (qi', df')"
  then obtain vals where "df' = set_col ''flag_consistency'' vals df" "length vals = len_df df"
    by (rule check_consistency_writes)
  with set_col_frame [OF assms, of vals "''flag_consistency''"]
  show "columns df' = (if ''flag_consistency'' \<in> set (columns df) then columns df
                           else columns df @ [''flag_consistency''])"
    and "len_df df' = len_df df"
    and "\<forall>name. name \<noteq> ''flag_consistency'' \<longrightarrow> column df' name = column df name"
    by simp_all
next
  assume "check_validity lib qi df = Inr (qi', df')"
  then obtain vals where "df' = set_col ''flag_validity'' vals df" "length vals = len_df df"
    by (rule check_validity_writes)
  with set_col_frame [OF assms, of vals "''flag_validity''"]
  show "columns df' = (if ''flag_validity'' \<in> set (columns df) then columns df
                           else columns df @ [''flag_validity''])"
    and "len_df df' = len_df df"
    and "\<forall>name. name \<noteq> ''flag_validity'' \<longrightarrow> column df' name = column df name"
    by simp_all
next
  assume "check_uniqueness qi df = Inr (qi', df')"
  then obtain vals where "df' = set_col ''flag_uniqueness'' vals df" "length vals = len_df df"
    by (rule check_uniqueness_writes)
  with set_col_frame [OF assms, of vals "''flag_uniqueness''"]
  show "columns df' = (if ''flag_uniqueness'' \<in> set (columns df) then columns df
                           else columns df @ [''flag_uniqueness''])"
    and "len_df df' = len_df df"
    and "\<forall>name. name \<noteq> ''flag_uniqueness'' \<longrightarrow> column df' name = column df name"
    by simp_all
qed

text \<open>
  Claim C10 as it is stated fails on a frame that has a column \<^verbatim>\<open>flag_completeness\<close>
  already: the values of that column change from 7 to 0, and the column stays first
  rather than being appended at the end.
\<close>

theorem existing_flag_column_overwritten:
  "column (snd (check_completeness [] \<lparr>columns = [''flag_completeness'', ''timevalue''], rows = [[IntV 7, IntV 2019]]\<rparr>))
       ''flag_completeness'' = [Some (IntV 0)]
   \<and> column \<lparr>columns = [''flag_completeness'', ''timevalue''], rows = [[IntV 7, IntV 2019]]\<rparr>
       ''flag_completeness'' = [Some (IntV 7)]
   \<and> columns (snd (check_completeness [] \<lparr>columns = [''flag_completeness'', ''timevalue''], rows = [[IntV 7, IntV 2019]]\<rparr>))
       = [''flag_completeness'', ''timevalue'']"
  by (simp add: run_defs check_defs column_def)

text \<open>
  The theorem at a frame that has a \<^verbatim>\<open>flag_validity\<close> column already: three evaluators
  append their column, \<^verbatim>\<open>check_validity\<close> keeps the schema, and \<^verbatim>\<open>timevalue\<close> is
  as it was after each.
\<close>

theorem evaluators_frame_witness:
  "\<forall>lib. \<exists>q1 d1 q2 d2 q3 d3 q4 d4.
     wf_df \<lparr>columns = [''timevalue'', ''flag_validity''], rows = [[IntV 2019, IntV 9], [IntV 1850, IntV 9]]\<rparr>
   \<and> check_completeness [] \<lparr>columns = [''timevalue'', ''flag_validity''], rows = [[IntV 2019, IntV 9], [IntV 1850, IntV 9]]\<rparr>
       = (q1, d1)
   \<and> columns d1 = [''timevalue'', ''flag_validity'', ''flag_completeness'']
   \<and> column d1 ''timevalue'' = [Some (IntV 2019), Some (IntV 1850)]
   \<and> column d1 ''flag_validity'' = [Some (IntV 9), Some (IntV 9)]
   \<and> check_consistency lib [] \<lparr>columns = [''timevalue'', ''flag_validity''], rows = [[IntV 2019, IntV 9], [IntV 1850, IntV 9]]\<rparr>
       = Inr (q2, d2)
   \<and> columns d2 = [''timevalue'', ''flag_validity'', ''flag_consistency'']
   \<and> column d2 ''timevalue'' = [Some (IntV 2019), Some (IntV 1850)]
   \<and> column d2 ''flag_validity'' = [Some (IntV 9), Some (IntV 9)]
   \<and> check_validity lib [] \<lparr>columns = [''timevalue'', ''flag_validity''], rows = [[IntV 2019, IntV 9], [IntV 1850, IntV 9]]\<rparr>
       = Inr (q3, d3)
   \<and> columns d3 = [''timevalue'', ''flag_validity'']
   \<and> column d3 ''timevalue'' = [Some (IntV 2019), Some (IntV 1850)]
   \<and> check_uniqueness [] \<lparr>columns = [''timevalue'', ''flag_validity''], rows = [[IntV 2019, IntV 9], [IntV 1850, IntV 9]]\<rparr>
       = Inr (q4, d4)
   \<and> columns d4 = [''timevalue'', ''flag_validity'', ''flag_uniqueness'']
   \<and> column d4 ''timevalue'' = [Some (IntV 2019), Some (IntV 1850)]
   \<and> column d4 ''flag_validity'' = [Some (IntV 9), Some (IntV 9)]"
proof (intro allI)
  fix lib
  let ?df = "\<lparr>columns = [''timevalue'', ''flag_validity''], rows = [[IntV 2019, IntV 9], [IntV 1850, IntV 9]]\<rparr>"
  have wf: "wf_df ?df" by (simp add: wf_df_def)
  have c: "column ?df ''timevalue'' = [Some (IntV 2019), Some (IntV 1850)]"
    "column ?df ''flag_validity'' = [Some (IntV 9), Some (IntV 9)]"
    by (simp_all add: column_def cell_at_def)
  obtain q1 d1 where r1: "check_completeness [] ?df = (q1, d1)" by (cases "check_completeness [] ?df")
  obtain q2 d2 where r2: "check_consistency lib [] ?df = Inr (q2, d2)"
    by (simp add: check_consistency_def Let_def py_truediv_def len_df_def)
  obtain q3 d3 where r3: "check_validity lib [] ?df = Inr (q3, d3)"
    by (simp add: run_defs check_defs)
  obtain q4 d4 where r4: "check_uniqueness [] ?df = Inr (q4, d4)"
    by (simp add: run_defs check_defs)
  have f1: "columns d1 = [''timevalue'', ''flag_validity'', ''flag_completeness'']
      \<and> column d1 ''timevalue'' = [Some (IntV 2019), Some (IntV 1850)]
      \<and> column d1 ''flag_validity'' = [Some (IntV 9), Some (IntV 9)]"
    using evaluators_frame [OF wf, of "[]" q1 d1 lib] r1 c by simp
  have f2: "columns d2 = [''timevalue'', ''flag_validity'', ''flag_consistency'']
      \<and> column d2 ''timevalue'' = [Some (IntV 2019), Some (IntV 1850)]
      \<and> column d2 ''flag_validity'' = [Some (IntV 9), Some (IntV 9)]"
    using evaluators_frame [OF wf, of "[]" q2 d2 lib] r2 c by simp
  have f3: "columns d3 = [''timevalue'', ''flag_validity'']
      \<and> column d3 ''timevalue'' = [Some (IntV 2019), Some (IntV 1850)]"
    using evaluators_frame [OF wf, of "[]" q3 d3 lib] r3 c by simp
  have f4: "columns d4 = [''timevalue'', ''flag_validity'', ''flag_uniqueness'']
      \<and> column d4 ''timevalue'' = [Some (IntV 2019), Some (IntV 1850)]
      \<and> column d4 ''flag_validity'' = [Some (IntV 9), Some (IntV 9)]"
    using evaluators_frame [OF wf, of "[]" q4 d4 lib] r4 c by simp
  from wf r1 r2 r3 r4 f1 f2 f3 f4
  show "\<exists>q1 d1 q2 d2 q3 d3 q4 d4.
     wf_df ?df
   \<and> check_completeness [] ?df = (q1, d1)
   \<and> columns d1 = [''timevalue'', ''flag_validity'', ''flag_completeness'']
   \<and> column d1 ''timevalue'' = [Some (IntV 2019), Some (IntV 1850)]
   \<and> column d1 ''flag_validity'' = [Some (IntV 9), Some (IntV 9)]
   \<and> check_consistency lib [] ?df = Inr (q2, d2)
   \<and> columns d2 = [''timevalue'', ''flag_validity'', ''flag_consistency'']
   \<and> column d2 ''timevalue'' = [Some (IntV 2019), Some (IntV 1850)]
   \<and> column d2 ''flag_validity'' = [Some (IntV 9), Some (IntV 9)]
   \<and> check_validity lib [] ?df = Inr (q3, d3)
   \<and> columns d3 = [''timevalue'', ''flag_validity'']
   \<and> column d3 ''timevalue'' = [Some (IntV 2019), Some (IntV 1850)]
   \<and> check_uniqueness [] ?df = Inr (q4, d4)
   \<and> columns d4 = [''timevalue'', ''flag_validity'', ''flag_uniqueness'']
   \<and> column d4 ''timevalue'' = [Some (IntV 2019), Some (IntV 1850)]
   \<and> column d4 ''flag_validity'' = [Some (IntV 9), Some (IntV 9)]"
    by blast
qed

section \<open>The flag columns after all checks\<close>

lemma set_columns_set_col: "set (columns (set_col f vals df)) = insert f (set (columns df))"
  by (auto simp: columns_set_col)

lemma columns_set_col_nonempty: "columns (set_col f vals df) \<noteq> []"
  by (auto simp: columns_set_col)

lemma four_checks_trace:
  assumes "wf_df df" and "four_checks lib qi df = Inr (qi4, df4)"
  obtains v1 v2 v3 v4 where
    "df4 = set_col ''flag_uniqueness'' v4 (set_col ''flag_validity'' v3
             (set_col ''flag_consistency'' v2 (set_col ''flag_completeness'' v1 df)))"
    and "length v1 = len_df df" and "length v2 = len_df df"
    and "length v3 = len_df df" and "length v4 = len_df df"
    and "\<forall>v\<in>set v1. v = IntV 0 \<or> v = IntV 1" and "\<forall>v\<in>set v2. v = IntV 0 \<or> v = IntV 1"
    and "\<forall>v\<in>set v3. v = IntV 0 \<or> v = IntV 1" and "\<forall>v\<in>set v4. v = IntV 0 \<or> v = IntV 1"
proof -
  obtain qi1 df1 where e1: "check_completeness qi df = (qi1, df1)" by (cases "check_completeness qi df")
  from assms(2) e1 obtain qi2 df2 where e2: "check_consistency lib qi1 df1 = Inr (qi2, df2)"
    by (auto simp: four_checks_def split: sum.splits)
  from assms(2) e1 e2 obtain qi3 df3 where e3: "check_validity lib qi2 df2 = Inr (qi3, df3)"
    by (auto simp: four_checks_def split: sum.splits)
  from assms(2) e1 e2 e3 have e4: "check_uniqueness qi3 df3 = Inr (qi4, df4)"
    by (simp add: four_checks_def)
  obtain v1 where v1: "df1 = set_col ''flag_completeness'' v1 df" "length v1 = len_df df"
    "\<forall>v\<in>set v1. v = IntV 0 \<or> v = IntV 1"
    using check_completeness_writes [of qi df] e1 by (metis snd_conv)
  have l1: "len_df df1 = len_df df" using v1 by (simp add: len_df_set_col)
  from e2 obtain v2 where v2: "df2 = set_col ''flag_consistency'' v2 df1" "length v2 = len_df df1"
    "\<forall>v\<in>set v2. v = IntV 0 \<or> v = IntV 1"
    by (rule check_consistency_writes)
  have l2: "len_df df2 = len_df df" using v2 l1 by (simp add: len_df_set_col)
  from e3 obtain v3 where v3: "df3 = set_col ''flag_validity'' v3 df2" "length v3 = len_df df2"
    "\<forall>v\<in>set v3. v = IntV 0 \<or> v = IntV 1"
    by (rule check_validity_writes)
  have l3: "len_df df3 = len_df df" using v3 l2 by (simp add: len_df_set_col)
  from e4 obtain v4 where v4: "df4 = set_col ''flag_uniqueness'' v4 df3" "length v4 = len_df df3"
    "columns df3 \<noteq> [] \<longrightarrow> (\<forall>v\<in>set v4. v = IntV 0 \<or> v = IntV 1)"
    by (rule check_uniqueness_writes)
  have "columns df3 \<noteq> []" unfolding v3(1) by (rule columns_set_col_nonempty)
  with v4 have v4': "\<forall>v\<in>set v4. v = IntV 0 \<or> v = IntV 1" by simp
  show ?thesis
    by (rule that [of v4 v3 v2 v1]) (use v1 v2 v3 v4 v4' l1 l2 l3 in simp_all)
qed

lemma four_set_cols:
  assumes "wf_df df"
    and "df4 = set_col ''flag_uniqueness'' v4 (set_col ''flag_validity'' v3
             (set_col ''flag_consistency'' v2 (set_col ''flag_completeness'' v1 df)))"
    and "length v1 = len_df df" and "length v2 = len_df df"
    and "length v3 = len_df df" and "length v4 = len_df df"
  shows "wf_df df4" and "len_df df4 = len_df df"
    and "column df4 ''flag_completeness'' = map Some v1"
    and "column df4 ''flag_consistency'' = map Some v2"
    and "column df4 ''flag_validity'' = map Some v3"
    and "column df4 ''flag_uniqueness'' = map Some v4"
    and "name \<notin> set dimension_flags \<Longrightarrow> column df4 name = column df name"
    and "set (columns df4) = set (columns df) \<union> set dimension_flags"
proof -
  let ?d1 = "set_col ''flag_completeness'' v1 df"
  let ?d2 = "set_col ''flag_consistency'' v2 ?d1"
  let ?d3 = "set_col ''flag_validity'' v3 ?d2"
  have w1: "wf_df ?d1" and l1: "len_df ?d1 = len_df df"
    using assms by (simp_all add: wf_df_set_col len_df_set_col)
  have w2: "wf_df ?d2" and l2: "len_df ?d2 = len_df df"
    using assms w1 l1 by (simp_all add: wf_df_set_col len_df_set_col)
  have w3: "wf_df ?d3" and l3: "len_df ?d3 = len_df df"
    using assms w2 l2 by (simp_all add: wf_df_set_col len_df_set_col)
  show "wf_df df4" "len_df df4 = len_df df"
    unfolding assms(2) using assms w3 l3 by (simp_all add: wf_df_set_col len_df_set_col)
  show "column df4 ''flag_uniqueness'' = map Some v4"
    unfolding assms(2) using w3 l3 assms(6) by (simp add: column_set_col_same)
  show "column df4 ''flag_validity'' = map Some v3"
    unfolding assms(2) using w3 l3 w2 l2 assms by (simp add: column_set_col_same column_set_col_other)
  show "column df4 ''flag_consistency'' = map Some v2"
    unfolding assms(2) using w3 l3 w2 l2 w1 l1 assms
    by (simp add: column_set_col_same column_set_col_other)
  show "column df4 ''flag_completeness'' = map Some v1"
    unfolding assms(2) using w3 l3 w2 l2 w1 l1 assms
    by (simp add: column_set_col_same column_set_col_other)
  show "column df4 name = column df name" if "name \<notin> set dimension_flags"
    unfolding assms(2) using that w3 l3 w2 l2 w1 l1 assms
    by (simp add: column_set_col_other dimension_flags_def)
  show "set (columns df4) = set (columns df) \<union> set dimension_flags"
    unfolding assms(2) by (auto simp: set_columns_set_col dimension_flags_def)
qed

lemma map_filter_all_Some:
  "\<forall>x\<in>set xs. f x = Some (g x) \<Longrightarrow> List.map_filter f xs = map g xs"
  by (induction xs) (simp_all add: List.map_filter_simps)

lemma row_max_ints:
  assumes "xs \<noteq> []"
  shows "row_max False (map IntV xs) = IntV (Max (set xs))"
proof -
  obtain y ys where xs: "xs = y # ys" using assms by (cases xs) auto
  have nums: "List.map_filter num_value (map IntV xs) = map rat_of_int xs"
    by (induction xs) (simp_all add: List.map_filter_simps)
  have "fold max (map rat_of_int ys) (rat_of_int y) = Max (set (map rat_of_int xs))"
    unfolding xs by (simp only: list.map Max.set_eq_fold)
  also have "\<dots> = Max (rat_of_int ` set xs)" by simp
  also have "\<dots> = rat_of_int (Max (set xs))"
    using assms by (intro mono_Max_commute [symmetric]) (auto simp: mono_def)
  finally have "fold max (map rat_of_int ys) (rat_of_int y) = rat_of_int (Max (set xs))" .
  moreover have "\<not> list_ex (\<lambda>c. c = PosInfV) (map IntV xs)"
    by (auto simp: list_ex_iff)
  ultimately show ?thesis
    unfolding row_max_def nums by (simp add: xs)
qed

lemma max_axis1_ints:
  assumes "names \<noteq> []"
    and "\<forall>row\<in>set (rows df). \<forall>c\<in>set names. cell_at (columns df) row c = Some (IntV (g row c))"
  shows "max_axis1 df names = Inr (map (\<lambda>row. IntV (Max (g row ` set names))) (rows df))"
proof -
  have sel: "select_cells (columns df) names row = map IntV (map (g row) names)"
    if "row \<in> set (rows df)" for row
    using assms(2) that by (simp add: select_cells_def map_filter_all_Some [where g = "\<lambda>c. IntV (g row c)"])
  have no_text: "\<not> list_ex (list_ex is_text) (map (select_cells (columns df) names) (rows df))"
    using sel by (auto simp: list_ex_iff)
  have no_float: "\<not> list_ex (list_ex (\<lambda>c. \<not> is_int c)) (map (select_cells (columns df) names) (rows df))"
    using sel by (auto simp: list_ex_iff)
  have "map (row_max False) (map (select_cells (columns df) names) (rows df))
      = map (\<lambda>row. IntV (Max (g row ` set names))) (rows df)"
  proof (rule nth_equalityI)
    show "length (map (row_max False) (map (select_cells (columns df) names) (rows df)))
        = length (map (\<lambda>row. IntV (Max (g row ` set names))) (rows df))" by simp
  next
    fix i assume "i < length (map (row_max False) (map (select_cells (columns df) names) (rows df)))"
    then have i: "i < length (rows df)" by simp
    then have mem: "rows df ! i \<in> set (rows df)" by simp
    have r: "row_max False (map IntV (map (g (rows df ! i)) names))
        = IntV (Max (set (map (g (rows df ! i)) names)))"
      using assms(1) by (intro row_max_ints) simp
    have "row_max False (select_cells (columns df) names (rows df ! i))
        = IntV (Max (g (rows df ! i) ` set names))"
      unfolding sel [OF mem] r by simp
    then show "map (row_max False) (map (select_cells (columns df) names) (rows df)) ! i
        = map (\<lambda>row. IntV (Max (g row ` set names))) (rows df) ! i"
      using i by simp
  qed
  then show ?thesis
    using no_text no_float by (simp add: max_axis1_def Let_def)
qed

lemma max_axis1_01:
  assumes "names \<noteq> []"
    and "\<forall>row\<in>set (rows df). \<forall>c\<in>set names.
           cell_at (columns df) row c = Some (IntV 0) \<or> cell_at (columns df) row c = Some (IntV 1)"
  obtains overall where "max_axis1 df names = Inr overall" and "length overall = len_df df"
    and "\<forall>v\<in>set overall. v = IntV 0 \<or> v = IntV 1"
proof -
  define g where "g row c = (if cell_at (columns df) row c = Some (IntV 1) then 1 else (0::int))" for row c
  have "\<forall>row\<in>set (rows df). \<forall>c\<in>set names. cell_at (columns df) row c = Some (IntV (g row c))"
    using assms(2) by (auto simp: g_def)
  from max_axis1_ints [OF assms(1) this]
  have m: "max_axis1 df names = Inr (map (\<lambda>row. IntV (Max (g row ` set names))) (rows df))" .
  have "Max (g row ` set names) = 0 \<or> Max (g row ` set names) = 1" for row
  proof -
    have "Max (g row ` set names) \<in> g row ` set names"
      using assms(1) by (intro Max_in) auto
    then show ?thesis by (auto simp: g_def split: if_splits)
  qed
  then have "\<forall>v\<in>set (map (\<lambda>row. IntV (Max (g row ` set names))) (rows df)). v = IntV 0 \<or> v = IntV 1"
    by auto
  with m show ?thesis using that by (simp add: len_df_def)
qed

lemma max_axis1_length: "max_axis1 df names = Inr overall \<Longrightarrow> length overall = len_df df"
  by (auto simp: max_axis1_def Let_def len_df_def split: if_splits)

lemma startswith_dimension_flags: "f \<in> set dimension_flags \<Longrightarrow> startswith ''flag_'' f"
  by (auto simp: dimension_flags_def startswith_def)

lemma flag_overall_not_dimension: "''flag_overall'' \<notin> set dimension_flags"
  by (simp add: dimension_flags_def)

lemma binary_column_nth:
  assumes "column df c = map Some vs" and "\<forall>v\<in>set vs. v = IntV 0 \<or> v = IntV 1" and "i < len_df df"
  shows "cell_at (columns df) (rows df ! i) c = Some (IntV 0) \<or> cell_at (columns df) (rows df ! i) c = Some (IntV 1)"
proof -
  have l: "length vs = len_df df" using assms(1) length_column [of df c] by (metis length_map)
  have "cell_at (columns df) (rows df ! i) c = Some (vs ! i)"
    using assms(1,3) l column_nth [of i df c] by simp
  moreover have "vs ! i \<in> set vs" using assms(3) l by simp
  ultimately show ?thesis using assms(2) by auto
qed

lemma overall_binary:
  assumes "wf_df df" and "four_checks lib qi df = Inr (qi', df4)"
    and "max_axis1 df4 (filter (startswith ''flag_'') (columns df4)) = Inr overall"
    and h: "\<forall>c\<in>set (columns df). startswith ''flag_'' c \<and> c \<notin> set dimension_flags \<longrightarrow>
               (\<forall>x\<in>set (column df c). x = Some (IntV 0) \<or> x = Some (IntV 1))"
  shows "\<forall>v\<in>set overall. v = IntV 0 \<or> v = IntV 1"
proof -
  let ?names = "filter (startswith ''flag_'') (columns df4)"
  from assms(1,2) obtain v1 v2 v3 v4 where
    d4: "df4 = set_col ''flag_uniqueness'' v4 (set_col ''flag_validity'' v3
             (set_col ''flag_consistency'' v2 (set_col ''flag_completeness'' v1 df)))"
    and l: "length v1 = len_df df" "length v2 = len_df df" "length v3 = len_df df" "length v4 = len_df df"
    and b: "\<forall>v\<in>set v1. v = IntV 0 \<or> v = IntV 1" "\<forall>v\<in>set v2. v = IntV 0 \<or> v = IntV 1"
      "\<forall>v\<in>set v3. v = IntV 0 \<or> v = IntV 1" "\<forall>v\<in>set v4. v = IntV 0 \<or> v = IntV 1"
    by (rule four_checks_trace)
  note s = four_set_cols [OF assms(1) d4 l]
  have dims: "\<exists>vs. column df4 f = map Some vs \<and> (\<forall>v\<in>set vs. v = IntV 0 \<or> v = IntV 1)"
    if "f \<in> set dimension_flags" for f
    using that s(3-6) b by (auto simp: dimension_flags_def)
  have "''flag_completeness'' \<in> set ?names"
    using s(8) by (simp add: dimension_flags_def startswith_def)
  then have ne: "?names \<noteq> []" by (metis empty_iff empty_set)
  have cells: "\<forall>row\<in>set (rows df4). \<forall>c\<in>set ?names.
         cell_at (columns df4) row c = Some (IntV 0) \<or> cell_at (columns df4) row c = Some (IntV 1)"
  proof (intro ballI)
    fix row c assume row: "row \<in> set (rows df4)" and c: "c \<in> set ?names"
    from row obtain i where i: "i < len_df df4" "row = rows df4 ! i"
      by (auto simp: in_set_conv_nth len_df_def)
    show "cell_at (columns df4) row c = Some (IntV 0) \<or> cell_at (columns df4) row c = Some (IntV 1)"
    proof (cases "c \<in> set dimension_flags")
      case True
      from dims [OF True] obtain vs where "column df4 c = map Some vs" "\<forall>v\<in>set vs. v = IntV 0 \<or> v = IntV 1"
        by blast
      then show ?thesis unfolding i(2) using i(1) by (rule binary_column_nth)
    next
      case False
      then have "c \<in> set (columns df)" "startswith ''flag_'' c" using c s(8) by auto
      with h False have "\<forall>x\<in>set (column df c). x = Some (IntV 0) \<or> x = Some (IntV 1)" by blast
      moreover have "column df4 c = column df c" using False by (rule s(7))
      moreover have "column df4 c ! i \<in> set (column df4 c)" using i(1) by (simp add: length_column)
      ultimately show ?thesis unfolding i(2) using i(1) column_nth [of i df4 c] by auto
    qed
  qed
  from ne cells obtain overall' where "max_axis1 df4 ?names = Inr overall'"
    and "\<forall>v\<in>set overall'. v = IntV 0 \<or> v = IntV 1"
    by (rule max_axis1_01)
  with assms(3) show ?thesis by simp
qed

text \<open>
  Claim C9, as the code has it. After \<^verbatim>\<open>run_all_checks\<close> has returned, the frame has as
  many records as before, and each of the four dimension flag columns has, for every
  record, one value, which is 0 or 1. \<^verbatim>\<open>flag_overall\<close> has one value 0 or 1 for every
  record too when every column of the input whose name starts with \<^verbatim>\<open>flag_\<close> and is
  not one of the four dimension flags holds only the values 0 and 1. Such a column
  enters the maximum; it is left as it was, unless its name is \<^verbatim>\<open>flag_overall\<close>: then
  the maximum replaces its values.
\<close>

theorem flag_columns_binary:
  assumes "wf_df df" and "run_all_checks lib qi df = Inr (qi', df')"
  shows "len_df df' = len_df df
       \<and> (\<forall>f\<in>set dimension_flags.
            length (column df' f) = len_df df
            \<and> (\<forall>x\<in>set (column df' f). x = Some (IntV 0) \<or> x = Some (IntV 1)))
       \<and> ((\<forall>c\<in>set (columns df). startswith ''flag_'' c \<and> c \<notin> set dimension_flags \<longrightarrow>
               (\<forall>x\<in>set (column df c). x = Some (IntV 0) \<or> x = Some (IntV 1)))
           \<longrightarrow> length (column df' ''flag_overall'') = len_df df
               \<and> (\<forall>x\<in>set (column df' ''flag_overall''). x = Some (IntV 0) \<or> x = Some (IntV 1)))"
proof -
  let ?names = "\<lambda>d. filter (startswith ''flag_'') (columns d)"
  from assms(2) obtain df4 overall where f: "four_checks lib qi df = Inr (qi', df4)"
    and m: "max_axis1 df4 (?names df4) = Inr overall"
    and df': "df' = set_series ''flag_overall'' overall df4"
    by (rule run_all_checks_four)
  from assms(1) f obtain v1 v2 v3 v4 where
    d4: "df4 = set_col ''flag_uniqueness'' v4 (set_col ''flag_validity'' v3
             (set_col ''flag_consistency'' v2 (set_col ''flag_completeness'' v1 df)))"
    and l: "length v1 = len_df df" "length v2 = len_df df" "length v3 = len_df df" "length v4 = len_df df"
    and b: "\<forall>v\<in>set v1. v = IntV 0 \<or> v = IntV 1" "\<forall>v\<in>set v2. v = IntV 0 \<or> v = IntV 1"
      "\<forall>v\<in>set v3. v = IntV 0 \<or> v = IntV 1" "\<forall>v\<in>set v4. v = IntV 0 \<or> v = IntV 1"
    by (rule four_checks_trace)
  note s = four_set_cols [OF assms(1) d4 l]
  have lo: "length overall = len_df df4" using m by (rule max_axis1_length)
  then have df'': "df' = set_col ''flag_overall'' overall df4" using df' by (simp add: set_series_eq)
  have len: "len_df df' = len_df df" unfolding df'' using lo s(2) by (simp add: len_df_set_col)
  have keep: "column df' f = column df4 f" if "f \<in> set dimension_flags" for f
    unfolding df'' using that s(1) lo flag_overall_not_dimension
    by (intro column_set_col_other) auto
  have dims: "\<exists>vs. column df4 f = map Some vs \<and> (\<forall>v\<in>set vs. v = IntV 0 \<or> v = IntV 1)"
    if "f \<in> set dimension_flags" for f
    using that s(3-6) b by (auto simp: dimension_flags_def)
  have part1: "length (column df' f) = len_df df
            \<and> (\<forall>x\<in>set (column df' f). x = Some (IntV 0) \<or> x = Some (IntV 1))"
    if "f \<in> set dimension_flags" for f
  proof -
    from dims [OF that] obtain vs where "column df4 f = map Some vs" "\<forall>v\<in>set vs. v = IntV 0 \<or> v = IntV 1"
      by blast
    then show ?thesis using keep [OF that] length_column [of df' f] len by auto
  qed
  have part2: "length (column df' ''flag_overall'') = len_df df
      \<and> (\<forall>x\<in>set (column df' ''flag_overall''). x = Some (IntV 0) \<or> x = Some (IntV 1))"
    if h: "\<forall>c\<in>set (columns df). startswith ''flag_'' c \<and> c \<notin> set dimension_flags \<longrightarrow>
               (\<forall>x\<in>set (column df c). x = Some (IntV 0) \<or> x = Some (IntV 1))"
  proof -
    have "\<forall>v\<in>set overall. v = IntV 0 \<or> v = IntV 1"
      using assms(1) f m h by (rule overall_binary)
    moreover have "column df' ''flag_overall'' = map Some overall"
      unfolding df'' using s(1) lo by (simp add: column_set_col_same)
    ultimately show ?thesis using lo s(2) by auto
  qed
  from len part1 part2 show ?thesis by blast
qed

text \<open>
  The theorem at a frame of two records that carries a column \<^verbatim>\<open>flag_manual\<close> of
  zeros and ones.
\<close>

theorem flag_columns_binary_witness:
  "\<forall>lib. \<exists>qi' df'.
     wf_df \<lparr>columns = [''timevalue'', ''flag_manual''], rows = [[IntV 2019, IntV 1], [IntV 1850, IntV 0]]\<rparr>
   \<and> run_all_checks lib [] \<lparr>columns = [''timevalue'', ''flag_manual''], rows = [[IntV 2019, IntV 1], [IntV 1850, IntV 0]]\<rparr>
       = Inr (qi', df')
   \<and> column \<lparr>columns = [''timevalue'', ''flag_manual''], rows = [[IntV 2019, IntV 1], [IntV 1850, IntV 0]]\<rparr>
        ''flag_manual'' = [Some (IntV 1), Some (IntV 0)]
   \<and> len_df df' = 2
   \<and> set (column df' ''flag_completeness'') \<subseteq> {Some (IntV 0), Some (IntV 1)}
   \<and> set (column df' ''flag_consistency'') \<subseteq> {Some (IntV 0), Some (IntV 1)}
   \<and> set (column df' ''flag_validity'') \<subseteq> {Some (IntV 0), Some (IntV 1)}
   \<and> set (column df' ''flag_uniqueness'') \<subseteq> {Some (IntV 0), Some (IntV 1)}
   \<and> set (column df' ''flag_overall'') \<subseteq> {Some (IntV 0), Some (IntV 1)}"
proof (intro allI)
  fix lib
  let ?df = "\<lparr>columns = [''timevalue'', ''flag_manual''], rows = [[IntV 2019, IntV 1], [IntV 1850, IntV 0]]\<rparr>"
  have wf: "wf_df ?df" by (simp add: wf_df_def)
  obtain qi' df' where run: "run_all_checks lib [] ?df = Inr (qi', df')"
    by (simp add: run_defs check_defs)
  have c: "column ?df ''flag_manual'' = [Some (IntV 1), Some (IntV 0)]"
    by (simp add: column_def cell_at_def)
  have h: "\<forall>c\<in>set (columns ?df). startswith ''flag_'' c \<and> c \<notin> set dimension_flags \<longrightarrow>
               (\<forall>x\<in>set (column ?df c). x = Some (IntV 0) \<or> x = Some (IntV 1))"
    by (simp add: startswith_def column_def cell_at_def)
  note t = flag_columns_binary [OF wf run]
  have len: "len_df df' = 2" using t by (simp add: len_df_def)
  have dims: "set (column df' ''flag_completeness'') \<subseteq> {Some (IntV 0), Some (IntV 1)}"
    "set (column df' ''flag_consistency'') \<subseteq> {Some (IntV 0), Some (IntV 1)}"
    "set (column df' ''flag_validity'') \<subseteq> {Some (IntV 0), Some (IntV 1)}"
    "set (column df' ''flag_uniqueness'') \<subseteq> {Some (IntV 0), Some (IntV 1)}"
    using t by (auto simp: dimension_flags_def)
  have ov: "set (column df' ''flag_overall'') \<subseteq> {Some (IntV 0), Some (IntV 1)}"
    using t h by blast
  from wf run c len dims ov
  show "\<exists>qi' df'. wf_df ?df \<and> run_all_checks lib [] ?df = Inr (qi', df')
   \<and> column ?df ''flag_manual'' = [Some (IntV 1), Some (IntV 0)]
   \<and> len_df df' = 2
   \<and> set (column df' ''flag_completeness'') \<subseteq> {Some (IntV 0), Some (IntV 1)}
   \<and> set (column df' ''flag_consistency'') \<subseteq> {Some (IntV 0), Some (IntV 1)}
   \<and> set (column df' ''flag_validity'') \<subseteq> {Some (IntV 0), Some (IntV 1)}
   \<and> set (column df' ''flag_uniqueness'') \<subseteq> {Some (IntV 0), Some (IntV 1)}
   \<and> set (column df' ''flag_overall'') \<subseteq> {Some (IntV 0), Some (IntV 1)}"
    by blast
qed

text \<open>
  Claim C9 as it is stated fails on an input that carries a column \<^verbatim>\<open>flag_manual\<close> with
  the value 5: after the run that column still holds 5, and \<^verbatim>\<open>flag_overall\<close> is 5.
\<close>

theorem extra_flag_column_not_binary:
  "\<forall>lib qi. map_sum id snd (run_all_checks lib qi
       \<lparr>columns = [''timevalue'', ''flag_manual''], rows = [[IntV 2019, IntV 5]]\<rparr>)
     = Inr \<lparr>columns = [''timevalue'', ''flag_manual'', ''flag_completeness'', ''flag_consistency'',
                       ''flag_validity'', ''flag_uniqueness'', ''flag_overall''],
            rows = [[IntV 2019, IntV 5, IntV 0, IntV 0, IntV 0, IntV 0, IntV 5]]\<rparr>"
  by (simp add: run_defs check_defs)

section \<open>The overall flag\<close>

text \<open>
  Claim C1, as the code has it. When no column of the input starts with \<^verbatim>\<open>flag_\<close>
  but the four dimension flags themselves, \<^verbatim>\<open>flag_overall\<close> of every record is the
  maximum of its four dimension flags. (\<^verbatim>\<open>run_all_checks\<close> takes the maximum over
  every column whose name starts with \<^verbatim>\<open>flag_\<close>.)
\<close>

theorem flag_overall_is_max:
  assumes "wf_df df" and "run_all_checks lib qi df = Inr (qi', df')"
    and "\<forall>c\<in>set (columns df). startswith ''flag_'' c \<longrightarrow> c \<in> set dimension_flags"
    and "i < len_df df"
  shows "\<exists>a b c d.
           column df' ''flag_completeness'' ! i = Some (IntV a)
         \<and> column df' ''flag_consistency'' ! i = Some (IntV b)
         \<and> column df' ''flag_validity'' ! i = Some (IntV c)
         \<and> column df' ''flag_uniqueness'' ! i = Some (IntV d)
         \<and> column df' ''flag_overall'' ! i = Some (IntV (max (max a b) (max c d)))"
proof -
  let ?names = "\<lambda>d. filter (startswith ''flag_'') (columns d)"
  from assms(2) obtain df4 overall where f: "four_checks lib qi df = Inr (qi', df4)"
    and m: "max_axis1 df4 (?names df4) = Inr overall"
    and df': "df' = set_series ''flag_overall'' overall df4"
    by (rule run_all_checks_four)
  from assms(1) f obtain v1 v2 v3 v4 where
    d4: "df4 = set_col ''flag_uniqueness'' v4 (set_col ''flag_validity'' v3
             (set_col ''flag_consistency'' v2 (set_col ''flag_completeness'' v1 df)))"
    and l: "length v1 = len_df df" "length v2 = len_df df" "length v3 = len_df df" "length v4 = len_df df"
    and b: "\<forall>v\<in>set v1. v = IntV 0 \<or> v = IntV 1" "\<forall>v\<in>set v2. v = IntV 0 \<or> v = IntV 1"
      "\<forall>v\<in>set v3. v = IntV 0 \<or> v = IntV 1" "\<forall>v\<in>set v4. v = IntV 0 \<or> v = IntV 1"
    by (rule four_checks_trace)
  note s = four_set_cols [OF assms(1) d4 l]
  have lo: "length overall = len_df df4" using m by (rule max_axis1_length)
  then have df'': "df' = set_col ''flag_overall'' overall df4" using df' by (simp add: set_series_eq)
  have i4: "i < len_df df4" using assms(4) s(2) by simp
  have i': "i < len_df df'" unfolding df'' using i4 lo by (simp add: len_df_set_col)
  have keep: "column df' f = column df4 f" if "f \<in> set dimension_flags" for f
    unfolding df'' using that s(1) lo flag_overall_not_dimension
    by (intro column_set_col_other) auto
  have dims: "\<exists>vs. column df4 f = map Some vs \<and> (\<forall>v\<in>set vs. v = IntV 0 \<or> v = IntV 1)"
    if "f \<in> set dimension_flags" for f
    using that s(3-6) b by (auto simp: dimension_flags_def)
  define g where "g row c = (case cell_at (columns df4) row c of Some (IntV z) \<Rightarrow> z | _ \<Rightarrow> 0)" for row c
  have "set (?names df4) = {c \<in> set (columns df) \<union> set dimension_flags. startswith ''flag_'' c}"
    by (simp only: set_filter s(8))
  also have "\<dots> = set dimension_flags"
    using assms(3) startswith_dimension_flags by blast
  finally have names: "set (?names df4) = set dimension_flags" .
  have "''flag_completeness'' \<in> set (?names df4)"
    unfolding names by (simp add: dimension_flags_def)
  then have ne: "?names df4 \<noteq> []" by (metis empty_iff empty_set)
  have cell: "cell_at (columns df4) (rows df4 ! j) c = Some (IntV (g (rows df4 ! j) c))"
    if "j < len_df df4" "c \<in> set dimension_flags" for j c
  proof -
    from dims [OF that(2)] obtain vs where "column df4 c = map Some vs" "\<forall>v\<in>set vs. v = IntV 0 \<or> v = IntV 1"
      by blast
    from binary_column_nth [OF this that(1)] show ?thesis by (auto simp: g_def)
  qed
  have "\<forall>row\<in>set (rows df4). \<forall>c\<in>set (?names df4).
           cell_at (columns df4) row c = Some (IntV (g row c))"
    unfolding names
  proof (intro ballI)
    fix row c assume "row \<in> set (rows df4)" and c: "c \<in> set dimension_flags"
    then obtain j where "j < len_df df4" "row = rows df4 ! j"
      by (auto simp: in_set_conv_nth len_df_def)
    then show "cell_at (columns df4) row c = Some (IntV (g row c))" using cell [OF _ c] by simp
  qed
  from max_axis1_ints [OF ne this] m
  have overall: "overall = map (\<lambda>row. IntV (Max (g row ` set (?names df4)))) (rows df4)" by simp
  let ?row = "rows df4 ! i"
  have "overall ! i = IntV (Max (g ?row ` set dimension_flags))"
    unfolding overall names using i4 by (simp add: len_df_def)
  also have "Max (g ?row ` set dimension_flags)
      = max (max (g ?row ''flag_completeness'') (g ?row ''flag_consistency''))
            (max (g ?row ''flag_validity'') (g ?row ''flag_uniqueness''))"
    by (simp add: dimension_flags_def max.assoc)
  finally have o: "overall ! i = IntV (max (max (g ?row ''flag_completeness'') (g ?row ''flag_consistency''))
            (max (g ?row ''flag_validity'') (g ?row ''flag_uniqueness'')))" .
  have "column df' ''flag_overall'' = map Some overall"
    unfolding df'' using s(1) lo by (simp add: column_set_col_same)
  then have ov: "column df' ''flag_overall'' ! i = Some (overall ! i)"
    using i4 lo by simp
  have flag: "column df' f ! i = Some (IntV (g ?row f))" if "f \<in> set dimension_flags" for f
    using keep [OF that] cell [OF i4 that] column_nth [OF i4, of f] by simp
  have "column df' ''flag_completeness'' ! i = Some (IntV (g ?row ''flag_completeness''))"
    "column df' ''flag_consistency'' ! i = Some (IntV (g ?row ''flag_consistency''))"
    "column df' ''flag_validity'' ! i = Some (IntV (g ?row ''flag_validity''))"
    "column df' ''flag_uniqueness'' ! i = Some (IntV (g ?row ''flag_uniqueness''))"
    by (simp_all add: flag dimension_flags_def)
  with ov o show ?thesis by simp
qed

text \<open>
  The theorem at a frame of two records: the first has no issue, the second a
  completeness and a validity issue.
\<close>

theorem flag_overall_is_max_witness:
  "\<forall>lib. \<exists>qi' df'.
     wf_df \<lparr>columns = [''timevalue'', ''REVENUE''], rows = [[IntV 2019, IntV 5], [IntV 1850, Null]]\<rparr>
   \<and> run_all_checks lib [] \<lparr>columns = [''timevalue'', ''REVENUE''], rows = [[IntV 2019, IntV 5], [IntV 1850, Null]]\<rparr>
       = Inr (qi', df')
   \<and> list_all (\<lambda>c. \<not> startswith ''flag_'' c) [''timevalue'', ''REVENUE'']
   \<and> column df' ''flag_completeness'' = [Some (IntV 0), Some (IntV 1)]
   \<and> column df' ''flag_consistency'' = [Some (IntV 0), Some (IntV 0)]
   \<and> column df' ''flag_validity'' = [Some (IntV 0), Some (IntV 1)]
   \<and> column df' ''flag_uniqueness'' = [Some (IntV 0), Some (IntV 0)]
   \<and> column df' ''flag_overall'' ! 0 = Some (IntV 0)
   \<and> column df' ''flag_overall'' ! 1 = Some (IntV 1)"
proof (intro allI)
  fix lib
  let ?df = "\<lparr>columns = [''timevalue'', ''REVENUE''], rows = [[IntV 2019, IntV 5], [IntV 1850, Null]]\<rparr>"
  have wf: "wf_df ?df" by (simp add: wf_df_def)
  obtain qi' df' where run: "run_all_checks lib [] ?df = Inr (qi', df')"
    and df': "df' = \<lparr>columns = [''timevalue'', ''REVENUE'', ''flag_completeness'', ''flag_consistency'',
                               ''flag_validity'', ''flag_uniqueness'', ''flag_overall''],
                    rows = [[IntV 2019, IntV 5, IntV 0, IntV 0, IntV 0, IntV 0, IntV 0],
                            [IntV 1850, Null, IntV 1, IntV 0, IntV 1, IntV 0, IntV 1]]\<rparr>"
    by (simp add: run_defs check_defs)
  have h: "\<forall>c\<in>set (columns ?df). startswith ''flag_'' c \<longrightarrow> c \<in> set dimension_flags"
    by (simp add: startswith_def)
  have cols: "column df' ''flag_completeness'' = [Some (IntV 0), Some (IntV 1)]"
    "column df' ''flag_consistency'' = [Some (IntV 0), Some (IntV 0)]"
    "column df' ''flag_validity'' = [Some (IntV 0), Some (IntV 1)]"
    "column df' ''flag_uniqueness'' = [Some (IntV 0), Some (IntV 0)]"
    unfolding df' by (simp_all add: column_def cell_at_def)
  have o0: "column df' ''flag_overall'' ! 0 = Some (IntV 0)"
    using flag_overall_is_max [OF wf run h, of 0] unfolding cols by (auto simp: len_df_def)
  have o1: "column df' ''flag_overall'' ! 1 = Some (IntV 1)"
    using flag_overall_is_max [OF wf run h, of 1] unfolding cols by (auto simp: len_df_def)
  have n: "list_all (\<lambda>c. \<not> startswith ''flag_'' c) [''timevalue'', ''REVENUE'']"
    by (simp add: startswith_def)
  from wf run n cols o0 o1
  show "\<exists>qi' df'. wf_df ?df \<and> run_all_checks lib [] ?df = Inr (qi', df')
   \<and> list_all (\<lambda>c. \<not> startswith ''flag_'' c) [''timevalue'', ''REVENUE'']
   \<and> column df' ''flag_completeness'' = [Some (IntV 0), Some (IntV 1)]
   \<and> column df' ''flag_consistency'' = [Some (IntV 0), Some (IntV 0)]
   \<and> column df' ''flag_validity'' = [Some (IntV 0), Some (IntV 1)]
   \<and> column df' ''flag_uniqueness'' = [Some (IntV 0), Some (IntV 0)]
   \<and> column df' ''flag_overall'' ! 0 = Some (IntV 0)
   \<and> column df' ''flag_overall'' ! 1 = Some (IntV 1)"
    by blast
qed

text \<open>
  Claim C1 as it is stated fails on an input that carries a column \<^verbatim>\<open>flag_manual\<close>:
  the four dimension flags of the record are 0, and \<^verbatim>\<open>flag_overall\<close> is 1, the value
  of \<^verbatim>\<open>flag_manual\<close>.
\<close>

theorem extra_flag_column_in_overall:
  "\<forall>lib qi. map_sum id snd (run_all_checks lib qi
       \<lparr>columns = [''timevalue'', ''flag_manual''], rows = [[IntV 2019, IntV 1]]\<rparr>)
     = Inr \<lparr>columns = [''timevalue'', ''flag_manual'', ''flag_completeness'', ''flag_consistency'',
                       ''flag_validity'', ''flag_uniqueness'', ''flag_overall''],
            rows = [[IntV 2019, IntV 1, IntV 0, IntV 0, IntV 0, IntV 0, IntV 1]]\<rparr>"
  by (simp add: run_defs check_defs)

section \<open>A second run\<close>

lemma cell_at_index_of:
  "cell_at cols row f = Some v \<Longrightarrow> length row = length cols \<Longrightarrow>
   index_of cols f < length row \<and> row ! index_of cols f = v"
  unfolding cell_at_def
proof (induction cols arbitrary: row)
  case Nil
  then show ?case by simp
next
  case (Cons c cols)
  then obtain r rs where "row = r # rs" by (cases row) auto
  with Cons show ?case by (auto split: if_splits)
qed

lemma cell_at_Some_mem: "cell_at cols row f = Some v \<Longrightarrow> f \<in> set cols"
  by (auto simp: cell_at_def dest!: map_of_SomeD set_zip_leftD)

lemma set_col_unchanged:
  assumes "wf_df d" and "column d f = map Some vals" and "rows d \<noteq> []"
  shows "set_col f vals d = d"
proof -
  have l: "length vals = length (rows d)"
    using assms(2) length_column [of d f] by (metis length_map len_df_def)
  have cell: "cell_at (columns d) (rows d ! i) f = Some (vals ! i)" if "i < length (rows d)" for i
    using that assms(2) l column_nth [of i d f] by (simp add: len_df_def)
  have "cell_at (columns d) (rows d ! 0) f = Some (vals ! 0)" using assms(3) by (intro cell) simp
  then have mem: "f \<in> set (columns d)" by (rule cell_at_Some_mem)
  have "map (\<lambda>(row, v). row[index_of (columns d) f := v]) (zip (rows d) vals) = rows d"
  proof (rule nth_equalityI)
    show "length (map (\<lambda>(row, v). row[index_of (columns d) f := v]) (zip (rows d) vals)) = length (rows d)"
      using l by simp
  next
    fix i assume "i < length (map (\<lambda>(row, v). row[index_of (columns d) f := v]) (zip (rows d) vals))"
    then have i: "i < length (rows d)" using l by simp
    have "length (rows d ! i) = length (columns d)" using assms(1) i by (rule wf_df_rowD)
    from cell_at_index_of [OF cell [OF i] this]
    have "(rows d ! i)[index_of (columns d) f := vals ! i] = rows d ! i"
      by (metis list_update_id)
    then show "map (\<lambda>(row, v). row[index_of (columns d) f := v]) (zip (rows d) vals) ! i = rows d ! i"
      using i l by simp
  qed
  then show ?thesis using mem by (simp add: set_col_def)
qed

lemma four_checks_fixed:
  assumes "wf_df d" and "rows d \<noteq> []"
    and "column d ''flag_completeness'' = map Some (astype_int (missing_mask d (completeness_columns d)))"
    and "column d ''flag_consistency'' = map Some (map IntV (map (consistency_flag lib (columns d)) (rows d)))"
    and "map_result (validity_flag lib (columns d)) (rows d) = Inr flags"
    and "column d ''flag_validity'' = map Some (map IntV flags)"
    and "duplicated_all d (uniqueness_columns d) = Inr dup" and "length dup = len_df d"
    and "column d ''flag_uniqueness'' = map Some (astype_int dup)"
  shows "\<exists>q'. four_checks lib q d = Inr (q', d)"
proof -
  have n: "int (len_df d) \<noteq> 0" using assms(2) by (simp add: len_df_def)
  have 1: "snd (check_completeness q d) = d"
    unfolding check_completeness_frame using assms(1,3,2) by (rule set_col_unchanged)
  then obtain q1 where c1: "check_completeness q d = (q1, d)" by (cases "check_completeness q d") simp
  have "set_col ''flag_consistency'' (map IntV (map (consistency_flag lib (columns d)) (rows d))) d = d"
    using assms(1,4,2) by (rule set_col_unchanged)
  then obtain q2 where c2: "check_consistency lib q1 d = Inr (q2, d)"
    using n by (simp add: check_consistency_def Let_def py_truediv_def)
  have "set_col ''flag_validity'' (map IntV flags) d = d"
    using assms(1,6,2) by (rule set_col_unchanged)
  then obtain q3 where c3: "check_validity lib q2 d = Inr (q3, d)"
    using n assms(5) by (simp add: check_validity_def Let_def py_truediv_def)
  have "set_col ''flag_uniqueness'' (astype_int dup) d = d"
    using assms(1,9,2) by (rule set_col_unchanged)
  then have "set_series ''flag_uniqueness'' (astype_int dup) d = d"
    using assms(8) by (simp add: set_series_eq astype_int_def)
  then obtain q4 where c4: "check_uniqueness q3 d = Inr (q4, d)"
    using assms(7) by (simp add: check_uniqueness_def Let_def)
  from c1 c2 c3 c4 show ?thesis by (simp add: four_checks_def)
qed

lemma cell_at_not_mem: "n \<notin> set cols \<Longrightarrow> cell_at cols row n = None"
  by (cases "cell_at cols row n") (auto dest: cell_at_Some_mem)

lemma same_raw_iff:
  "same_raw a b \<longleftrightarrow>
     len_df a = len_df b
     \<and> filter (\<lambda>c. \<not> startswith ''flag_'' c) (columns a) = filter (\<lambda>c. \<not> startswith ''flag_'' c) (columns b)
     \<and> (\<forall>n. \<not> startswith ''flag_'' n \<longrightarrow> column a n = column b n)"
proof
  assume s: "same_raw a b"
  have "column a n = column b n" if n: "\<not> startswith ''flag_'' n" for n
  proof (cases "n \<in> set (columns a)")
    case True
    then show ?thesis using s n by (simp add: same_raw_def list_all_iff)
  next
    case False
    moreover have "n \<notin> set (columns b)"
    proof
      assume "n \<in> set (columns b)"
      then have "n \<in> set (filter (\<lambda>c. \<not> startswith ''flag_'' c) (columns b))" using n by simp
      then have "n \<in> set (filter (\<lambda>c. \<not> startswith ''flag_'' c) (columns a))"
        using s by (simp add: same_raw_def)
      then show False using False by simp
    qed
    moreover have "length (rows a) = length (rows b)" using s by (simp add: same_raw_def len_df_def)
    ultimately show ?thesis by (simp add: column_def cell_at_not_mem map_replicate_const)
  qed
  then show "len_df a = len_df b
     \<and> filter (\<lambda>c. \<not> startswith ''flag_'' c) (columns a) = filter (\<lambda>c. \<not> startswith ''flag_'' c) (columns b)
     \<and> (\<forall>n. \<not> startswith ''flag_'' n \<longrightarrow> column a n = column b n)"
    using s by (simp add: same_raw_def)
next
  assume "len_df a = len_df b
     \<and> filter (\<lambda>c. \<not> startswith ''flag_'' c) (columns a) = filter (\<lambda>c. \<not> startswith ''flag_'' c) (columns b)
     \<and> (\<forall>n. \<not> startswith ''flag_'' n \<longrightarrow> column a n = column b n)"
  then show "same_raw a b" by (simp add: same_raw_def list_all_iff)
qed

lemma same_raw_refl: "same_raw a a"
  by (simp add: same_raw_iff)

lemma same_raw_sym: "same_raw a b \<Longrightarrow> same_raw b a"
  by (simp add: same_raw_iff)

lemma same_raw_trans: "same_raw a b \<Longrightarrow> same_raw b c \<Longrightarrow> same_raw a c"
  by (simp add: same_raw_iff)

lemma same_raw_mem:
  assumes "same_raw a b" and "\<not> startswith ''flag_'' n"
  shows "n \<in> set (columns a) \<longleftrightarrow> n \<in> set (columns b)"
proof -
  have "n \<in> set (filter (\<lambda>c. \<not> startswith ''flag_'' c) (columns a))
        \<longleftrightarrow> n \<in> set (filter (\<lambda>c. \<not> startswith ''flag_'' c) (columns b))"
    using assms(1) by (simp add: same_raw_def)
  then show ?thesis using assms(2) by simp
qed

lemma same_raw_set_col:
  assumes "wf_df a" and "length vals = len_df a" and "startswith ''flag_'' f"
  shows "same_raw (set_col f vals a) a"
proof -
  have "column (set_col f vals a) n = column a n" if "\<not> startswith ''flag_'' n" for n
    using assms that by (intro column_set_col_other) auto
  then show ?thesis
    using assms by (simp add: same_raw_def len_df_set_col columns_set_col list_all_iff)
qed

lemma same_raw_cell:
  assumes "same_raw a b" and "i < len_df a" and "\<not> startswith ''flag_'' n"
  shows "cell_at (columns a) (rows a ! i) n = cell_at (columns b) (rows b ! i) n"
proof (cases "n \<in> set (columns a)")
  case True
  then have "column a n = column b n" using assms(1,3) by (simp add: same_raw_def list_all_iff)
  then have "column a n ! i = column b n ! i" by simp
  then show ?thesis using assms by (simp add: column_nth same_raw_def)
next
  case False
  moreover from False have "n \<notin> set (columns b)" using same_raw_mem [OF assms(1,3)] by simp
  ultimately show ?thesis by (simp add: cell_at_not_mem)
qed

lemma present_cell_at:
  "present cols row name =
     (case cell_at cols row name of Some v \<Rightarrow> if notna v then Some v else None | None \<Rightarrow> None)"
  by (auto simp: present_def split: option.splits dest: cell_at_Some_mem)

lemma consistency_flag_cong:
  assumes "\<And>n. \<not> startswith ''flag_'' n \<Longrightarrow> cell_at cols row n = cell_at cols' row' n"
  shows "consistency_flag lib cols row = consistency_flag lib cols' row'"
proof -
  have "sub_check cols row n issue = sub_check cols' row' n issue" if "\<not> startswith ''flag_'' n" for n issue
    using assms [OF that] by (simp add: sub_check_def present_cell_at)
  then show ?thesis by (simp add: consistency_flag_def startswith_def)
qed

lemma validity_flag_cong:
  assumes "\<And>n. \<not> startswith ''flag_'' n \<Longrightarrow> cell_at cols row n = cell_at cols' row' n"
  shows "validity_flag lib cols row = validity_flag lib cols' row'"
proof -
  have a: "sub_check cols row n issue = sub_check cols' row' n issue" if "\<not> startswith ''flag_'' n" for n issue
    using assms [OF that] by (simp add: sub_check_def present_cell_at)
  have b: "sub_check_try cols row n issue = sub_check_try cols' row' n issue" if "\<not> startswith ''flag_'' n" for n issue
    using assms [OF that] by (simp add: sub_check_try_def present_cell_at)
  have 1: "sub_check_try cols row ''timevalue'' year_issue = sub_check_try cols' row' ''timevalue'' year_issue"
    by (rule b) (simp add: startswith_def)
  have 2: "sub_check_try cols row ''REVENUE'' (revenue_issue lib)
      = sub_check_try cols' row' ''REVENUE'' (revenue_issue lib)"
    by (rule b) (simp add: startswith_def)
  have 3: "sub_check cols row ''fiscalperiodend'' (fiscal_issue lib)
      = sub_check cols' row' ''fiscalperiodend'' (fiscal_issue lib)"
    by (rule a) (simp add: startswith_def)
  have 4: "sub_check cols row ''industrycode'' (industry_issue lib)
      = sub_check cols' row' ''industrycode'' (industry_issue lib)"
    by (rule a) (simp add: startswith_def)
  show ?thesis unfolding validity_flag_def 1 2 3 4 ..
qed

lemma same_raw_consistency:
  assumes "same_raw a b"
  shows "map (consistency_flag lib (columns a)) (rows a) = map (consistency_flag lib (columns b)) (rows b)"
proof (rule nth_equalityI)
  show "length (map (consistency_flag lib (columns a)) (rows a)) = length (map (consistency_flag lib (columns b)) (rows b))"
    using assms by (simp add: same_raw_def len_df_def)
next
  fix i assume "i < length (map (consistency_flag lib (columns a)) (rows a))"
  then have i: "i < len_df a" by (simp add: len_df_def)
  then have i': "i < len_df b" using assms by (simp add: same_raw_def)
  have "consistency_flag lib (columns a) (rows a ! i) = consistency_flag lib (columns b) (rows b ! i)"
    by (rule consistency_flag_cong) (rule same_raw_cell [OF assms i])
  then show "map (consistency_flag lib (columns a)) (rows a) ! i = map (consistency_flag lib (columns b)) (rows b) ! i"
    using i i' by (simp add: len_df_def)
qed

lemma map_result_cong: "map f xs = map g ys \<Longrightarrow> map_result f xs = map_result g ys"
proof (induction xs arbitrary: ys)
  case Nil
  then show ?case by simp
next
  case (Cons x xs)
  then obtain y ys' where ys: "ys = y # ys'" by (cases ys) auto
  from Cons.prems ys have h: "f x = g y" and t: "map f xs = map g ys'" by simp_all
  from Cons.IH [OF t] have "map_result f xs = map_result g ys'" .
  then show ?case unfolding ys by (simp add: h cong: sum.case_cong)
qed

lemma same_raw_validity:
  assumes "same_raw a b"
  shows "map_result (validity_flag lib (columns a)) (rows a) = map_result (validity_flag lib (columns b)) (rows b)"
proof (rule map_result_cong, rule nth_equalityI)
  show "length (map (validity_flag lib (columns a)) (rows a)) = length (map (validity_flag lib (columns b)) (rows b))"
    using assms by (simp add: same_raw_def len_df_def)
next
  fix i assume "i < length (map (validity_flag lib (columns a)) (rows a))"
  then have i: "i < len_df a" by (simp add: len_df_def)
  then have i': "i < len_df b" using assms by (simp add: same_raw_def)
  have "validity_flag lib (columns a) (rows a ! i) = validity_flag lib (columns b) (rows b ! i)"
    by (rule validity_flag_cong) (rule same_raw_cell [OF assms i])
  then show "map (validity_flag lib (columns a)) (rows a) ! i = map (validity_flag lib (columns b)) (rows b) ! i"
    using i i' by (simp add: len_df_def)
qed

lemma key_columns_raw: "k \<in> set key_columns \<Longrightarrow> \<not> startswith ''flag_'' k"
  by (auto simp: key_columns_def startswith_def)

lemma critical_columns_raw: "k \<in> set critical_columns \<Longrightarrow> \<not> startswith ''flag_'' k"
  by (auto simp: critical_columns_def startswith_def)

lemma uniqueness_columns_raw: "k \<in> set (uniqueness_columns a) \<Longrightarrow> \<not> startswith ''flag_'' k"
  by (auto simp: uniqueness_columns_def Let_def key_columns_raw split: if_splits)

lemma same_raw_filter_mem:
  assumes "same_raw a b" and "\<forall>k\<in>set ks. \<not> startswith ''flag_'' k"
  shows "filter (\<lambda>c. c \<in> set (columns a)) ks = filter (\<lambda>c. c \<in> set (columns b)) ks"
  by (rule filter_cong [OF refl]) (use assms same_raw_mem in blast)

lemma same_raw_uniqueness_columns:
  assumes "same_raw a b"
  shows "uniqueness_columns a = uniqueness_columns b"
proof -
  have "filter (\<lambda>c. c \<in> set (columns a)) key_columns = filter (\<lambda>c. c \<in> set (columns b)) key_columns"
    using assms by (rule same_raw_filter_mem) (simp add: key_columns_raw)
  moreover have "filter (\<lambda>c. \<not> startswith ''flag_'' c) (columns a) = filter (\<lambda>c. \<not> startswith ''flag_'' c) (columns b)"
    using assms by (simp add: same_raw_def)
  ultimately show ?thesis by (simp add: uniqueness_columns_def Let_def)
qed

lemma same_raw_keys:
  assumes "same_raw a b" and "\<forall>k\<in>set ks. \<not> startswith ''flag_'' k"
  shows "map (key_tuple (columns a) ks) (rows a) = map (key_tuple (columns b) ks) (rows b)"
proof (rule nth_equalityI)
  show "length (map (key_tuple (columns a) ks) (rows a)) = length (map (key_tuple (columns b) ks) (rows b))"
    using assms by (simp add: same_raw_def len_df_def)
next
  fix i assume "i < length (map (key_tuple (columns a) ks) (rows a))"
  then have i: "i < len_df a" by (simp add: len_df_def)
  then have i': "i < len_df b" using assms by (simp add: same_raw_def)
  have "key_tuple (columns a) ks (rows a ! i) = key_tuple (columns b) ks (rows b ! i)"
    unfolding key_tuple_def
    by (rule map_cong [OF refl]) (use assms(2) same_raw_cell [OF assms(1) i] in simp)
  then show "map (key_tuple (columns a) ks) (rows a) ! i = map (key_tuple (columns b) ks) (rows b) ! i"
    using i i' by (simp add: len_df_def)
qed

lemma same_raw_duplicated:
  assumes "same_raw a b" and "columns a \<noteq> []" and "columns b \<noteq> []"
  shows "duplicated_all a (uniqueness_columns a) = duplicated_all b (uniqueness_columns b)"
proof -
  have u: "uniqueness_columns a = uniqueness_columns b" using assms(1) by (rule same_raw_uniqueness_columns)
  have k: "map (key_tuple (columns a) (uniqueness_columns b)) (rows a)
      = map (key_tuple (columns b) (uniqueness_columns b)) (rows b)"
    using assms(1) by (rule same_raw_keys) (simp add: uniqueness_columns_raw)
  have r: "rows a = [] \<longleftrightarrow> rows b = []" using assms(1) by (auto simp: same_raw_def len_df_def)
  show ?thesis unfolding duplicated_all_def u Let_def k using assms(2,3) r by simp
qed

lemma same_raw_missing_mask:
  assumes "same_raw a b" and "\<forall>c\<in>set cc. \<not> startswith ''flag_'' c"
  shows "missing_mask a cc = missing_mask b cc"
  unfolding missing_mask_def
proof (rule nth_equalityI)
  show "length (map (\<lambda>row. list_ex (\<lambda>col. isnull_at (columns a) row col) cc) (rows a))
      = length (map (\<lambda>row. list_ex (\<lambda>col. isnull_at (columns b) row col) cc) (rows b))"
    using assms by (simp add: same_raw_def len_df_def)
next
  fix i assume "i < length (map (\<lambda>row. list_ex (\<lambda>col. isnull_at (columns a) row col) cc) (rows a))"
  then have i: "i < len_df a" by (simp add: len_df_def)
  then have i': "i < len_df b" using assms by (simp add: same_raw_def)
  have "list_ex (\<lambda>col. isnull_at (columns a) (rows a ! i) col) cc
      = list_ex (\<lambda>col. isnull_at (columns b) (rows b ! i) col) cc"
    unfolding list_ex_iff isnull_at_def using assms(2) same_raw_cell [OF assms(1) i] by auto
  then show "map (\<lambda>row. list_ex (\<lambda>col. isnull_at (columns a) row col) cc) (rows a) ! i
      = map (\<lambda>row. list_ex (\<lambda>col. isnull_at (columns b) row col) cc) (rows b) ! i"
    using i i' by (simp add: len_df_def)
qed

lemma same_raw_critical:
  assumes "same_raw a b"
  shows "filter (\<lambda>col. col \<in> set (columns a)) critical_columns
       = filter (\<lambda>col. col \<in> set (columns b)) critical_columns"
  using assms by (rule same_raw_filter_mem) (simp add: critical_columns_raw)

lemma same_raw_completeness_critical:
  assumes "same_raw a b" and "\<exists>c\<in>set critical_columns. c \<in> set (columns b)"
  shows "missing_mask a (completeness_columns a) = missing_mask b (completeness_columns b)"
proof -
  have ne: "filter (\<lambda>col. col \<in> set (columns b)) critical_columns \<noteq> []"
    using assms(2) by (simp add: filter_empty_conv)
  have cb: "completeness_columns b = filter (\<lambda>col. col \<in> set (columns b)) critical_columns"
    using ne by (simp add: completeness_columns_def)
  have ca: "completeness_columns a = filter (\<lambda>col. col \<in> set (columns b)) critical_columns"
    using ne by (simp add: completeness_columns_def same_raw_critical [OF assms(1)])
  show ?thesis unfolding ca cb
    using assms(1) by (rule same_raw_missing_mask) (simp add: critical_columns_raw)
qed

lemma fallback_missing_mask:
  assumes "same_raw d df" and "\<forall>c\<in>set (columns df). \<not> startswith ''flag_'' c"
    and "columns d = columns df @ extra"
    and "\<forall>c\<in>set extra. \<forall>x\<in>set (column d c). x \<noteq> Some Null \<and> x \<noteq> Some NoneV"
  shows "missing_mask d (take (min 4 (length (columns d))) (columns d))
       = missing_mask df (take (min 4 (length (columns df))) (columns df))"
  unfolding missing_mask_def
proof (rule nth_equalityI)
  let ?cd = "take (min 4 (length (columns d))) (columns d)"
  let ?cf = "take (min 4 (length (columns df))) (columns df)"
  show "length (map (\<lambda>row. list_ex (\<lambda>col. isnull_at (columns d) row col) ?cd) (rows d))
      = length (map (\<lambda>row. list_ex (\<lambda>col. isnull_at (columns df) row col) ?cf) (rows df))"
    using assms(1) by (simp add: same_raw_def len_df_def)
  fix i assume "i < length (map (\<lambda>row. list_ex (\<lambda>col. isnull_at (columns d) row col) ?cd) (rows d))"
  then have i: "i < len_df d" by (simp add: len_df_def)
  then have i': "i < len_df df" using assms(1) by (simp add: same_raw_def)
  have split: "?cd = ?cf @ take (4 - length (columns df)) extra"
    unfolding assms(3) by (simp add: min_def)
  have raw: "cell_at (columns d) (rows d ! i) c = cell_at (columns df) (rows df ! i) c" if "c \<in> set ?cf" for c
  proof -
    have "c \<in> set (columns df)" using that by (rule in_set_takeD)
    with assms(2) have "\<not> startswith ''flag_'' c" by blast
    then show ?thesis by (rule same_raw_cell [OF assms(1) i])
  qed
  have new: "\<not> isnull_at (columns d) (rows d ! i) c" if "c \<in> set (take (4 - length (columns df)) extra)" for c
  proof -
    have "c \<in> set extra" using that by (rule in_set_takeD)
    moreover have "column d c ! i \<in> set (column d c)" using i by (simp add: length_column)
    ultimately have "cell_at (columns d) (rows d ! i) c \<noteq> Some Null
        \<and> cell_at (columns d) (rows d ! i) c \<noteq> Some NoneV"
      using assms(4) i by (auto simp: column_nth)
    moreover have "notna a" if "a \<noteq> Null" "a \<noteq> NoneV" for a
      using that by (cases a) simp_all
    ultimately show ?thesis
      by (cases "cell_at (columns d) (rows d ! i) c") (auto simp: isnull_at_def)
  qed
  have "list_ex (\<lambda>col. isnull_at (columns d) (rows d ! i) col) ?cd
      = list_ex (\<lambda>col. isnull_at (columns df) (rows df ! i) col) ?cf"
  proof -
    have raw': "isnull_at (columns d) (rows d ! i) c = isnull_at (columns df) (rows df ! i) c"
      if "c \<in> set ?cf" for c
      using raw [OF that] by (simp add: isnull_at_def)
    show ?thesis
      unfolding split list_ex_iff set_append using raw' new by (metis Un_iff)
  qed
  then show "map (\<lambda>row. list_ex (\<lambda>col. isnull_at (columns d) row col) ?cd) (rows d) ! i
      = map (\<lambda>row. list_ex (\<lambda>col. isnull_at (columns df) row col) ?cf) (rows df) ! i"
    using i i' by (simp add: len_df_def)
qed

lemma four_checks_values:
  assumes "wf_df df" and "four_checks lib qi df = Inr (qi4, df4)"
  obtains df1 df2 df3 flags dup where
    "df1 = set_col ''flag_completeness'' (astype_int (missing_mask df (completeness_columns df))) df"
    and "df2 = set_col ''flag_consistency'' (map IntV (map (consistency_flag lib (columns df1)) (rows df1))) df1"
    and "map_result (validity_flag lib (columns df2)) (rows df2) = Inr flags"
    and "df3 = set_col ''flag_validity'' (map IntV flags) df2"
    and "duplicated_all df3 (uniqueness_columns df3) = Inr dup" and "length dup = len_df df"
    and "df4 = set_col ''flag_uniqueness'' (astype_int dup) df3"
    and "rows df \<noteq> []"
proof -
  obtain qi1 df1 where e1: "check_completeness qi df = (qi1, df1)" by (cases "check_completeness qi df")
  from assms(2) e1 obtain qi2 df2 where e2: "check_consistency lib qi1 df1 = Inr (qi2, df2)"
    by (auto simp: four_checks_def split: sum.splits)
  from assms(2) e1 e2 obtain qi3 df3 where e3: "check_validity lib qi2 df2 = Inr (qi3, df3)"
    by (auto simp: four_checks_def split: sum.splits)
  from assms(2) e1 e2 e3 have e4: "check_uniqueness qi3 df3 = Inr (qi4, df4)"
    by (simp add: four_checks_def)
  have d1: "df1 = set_col ''flag_completeness'' (astype_int (missing_mask df (completeness_columns df))) df"
    using check_completeness_frame [of qi df] e1 by simp
  have l1: "len_df df1 = len_df df"
    unfolding d1 by (simp add: len_df_set_col astype_int_def length_missing_mask)
  note d2 = check_consistency_frame [OF e2]
  have l2: "len_df df2 = len_df df" unfolding d2(1) using l1 by (simp add: length_rows_set_col len_df_def)
  from e3 obtain flags where m: "map_result (validity_flag lib (columns df2)) (rows df2) = Inr flags"
    and d3: "df3 = set_col ''flag_validity'' (map IntV flags) df2"
    by (rule check_validity_frame)
  have "length flags = len_df df2" using map_result_length [OF m] by (simp add: len_df_def)
  then have l3: "len_df df3 = len_df df" unfolding d3 using l2 by (simp add: len_df_set_col)
  from e4 obtain dup where u: "duplicated_all df3 (uniqueness_columns df3) = Inr dup"
    and d4: "df4 = set_col ''flag_uniqueness'' (align (len_df df3) (astype_int dup)) df3"
    by (rule check_uniqueness_frame)
  have r: "rows df \<noteq> []" using d2(2) l1 by (auto simp: len_df_def)
  have "columns df3 \<noteq> []" unfolding d3 by (rule columns_set_col_nonempty)
  then have ld: "length dup = len_df df"
    using u l3 by (auto simp: duplicated_all_def Let_def len_df_def split: if_splits)
  then have d4': "df4 = set_col ''flag_uniqueness'' (astype_int dup) df3"
    using d4 l3 by (simp add: align_same astype_int_def)
  show ?thesis using that [OF d1 d2(1) m d3 u ld d4' r] .
qed

lemma annotated_fixed:
  assumes wf: "wf_df df" and run: "four_checks lib qi df = Inr (qi4, df4)"
    and h: "(\<exists>c\<in>set critical_columns. c \<in> set (columns df))
            \<or> (\<forall>c\<in>set (columns df). \<not> startswith ''flag_'' c)"
    and d: "wf_df d" "same_raw d df4" "\<forall>f\<in>set dimension_flags. column d f = column df4 f"
    and ex: "(\<forall>c\<in>set (columns df). \<not> startswith ''flag_'' c) \<longrightarrow>
             (\<exists>extra. columns d = columns df @ extra
                      \<and> (\<forall>c\<in>set extra. \<forall>x\<in>set (column d c). x \<noteq> Some Null \<and> x \<noteq> Some NoneV))"
  shows "\<exists>q'. four_checks lib q d = Inr (q', d)"
proof -
  from wf run obtain df1 df2 df3 flags dup where
    d1: "df1 = set_col ''flag_completeness'' (astype_int (missing_mask df (completeness_columns df))) df"
    and d2: "df2 = set_col ''flag_consistency'' (map IntV (map (consistency_flag lib (columns df1)) (rows df1))) df1"
    and m: "map_result (validity_flag lib (columns df2)) (rows df2) = Inr flags"
    and d3: "df3 = set_col ''flag_validity'' (map IntV flags) df2"
    and u: "duplicated_all df3 (uniqueness_columns df3) = Inr dup" and ld: "length dup = len_df df"
    and d4: "df4 = set_col ''flag_uniqueness'' (astype_int dup) df3"
    and r: "rows df \<noteq> []"
    by (rule four_checks_values)
  let ?v1 = "astype_int (missing_mask df (completeness_columns df))"
  let ?v2 = "map IntV (map (consistency_flag lib (columns df1)) (rows df1))"
  have n1: "length ?v1 = len_df df" by (simp add: astype_int_def length_missing_mask)
  have w1: "wf_df df1" and l1: "len_df df1 = len_df df" and s1: "same_raw df1 df"
    unfolding d1 using wf n1
    by (simp_all add: wf_df_set_col len_df_set_col same_raw_set_col startswith_def)
  have n2: "length ?v2 = len_df df1" by (simp add: len_df_def)
  have w2: "wf_df df2" and l2: "len_df df2 = len_df df" and s2: "same_raw df2 df1"
    unfolding d2 using w1 l1 n2
    by (simp_all add: wf_df_set_col len_df_set_col same_raw_set_col startswith_def)
  have n3: "length (map IntV flags) = len_df df2" using map_result_length [OF m] by (simp add: len_df_def)
  have w3: "wf_df df3" and l3: "len_df df3 = len_df df" and s3: "same_raw df3 df2"
    unfolding d3 using w2 l2 n3
    by (simp_all add: wf_df_set_col len_df_set_col same_raw_set_col startswith_def)
  have n4: "length (astype_int dup) = len_df df3" using ld l3 by (simp add: astype_int_def)
  have l4: "len_df df4 = len_df df" and s4: "same_raw df4 df3"
    unfolding d4 using w3 l3 n4
    by (simp_all add: len_df_set_col same_raw_set_col startswith_def)
  have d4': "df4 = set_col ''flag_uniqueness'' (astype_int dup) (set_col ''flag_validity'' (map IntV flags)
             (set_col ''flag_consistency'' ?v2 (set_col ''flag_completeness'' ?v1 df)))"
    using d1 d2 d3 d4 by simp
  note c = four_set_cols [OF wf d4' n1 _ _ _]
  have lens: "length ?v2 = len_df df" "length (map IntV flags) = len_df df" "length (astype_int dup) = len_df df"
    using n2 n3 n4 l1 l2 l3 by simp_all
  have cc: "column d ''flag_completeness'' = map Some ?v1"
    and cs: "column d ''flag_consistency'' = map Some ?v2"
    and cv: "column d ''flag_validity'' = map Some (map IntV flags)"
    and cu: "column d ''flag_uniqueness'' = map Some (astype_int dup)"
    using d(3) c(3-6) [OF lens] by (simp_all add: dimension_flags_def)
  have sd4: "same_raw d df4" by (rule d(2))
  have sd3: "same_raw d df3" using sd4 s4 by (rule same_raw_trans)
  have sd2: "same_raw d df2" using sd3 s3 by (rule same_raw_trans)
  have sd1: "same_raw d df1" using sd2 s2 by (rule same_raw_trans)
  have sd: "same_raw d df" using sd1 s1 by (rule same_raw_trans)
  have ldd: "len_df d = len_df df" using sd by (simp add: same_raw_def)
  have rd: "rows d \<noteq> []" using r ldd by (auto simp: len_df_def)
  have mask: "missing_mask d (completeness_columns d) = missing_mask df (completeness_columns df)"
  proof (cases "\<exists>c\<in>set critical_columns. c \<in> set (columns df)")
    case True
    with sd show ?thesis by (rule same_raw_completeness_critical)
  next
    case False
    with h have raw: "\<forall>c\<in>set (columns df). \<not> startswith ''flag_'' c" by blast
    with ex obtain extra where e: "columns d = columns df @ extra"
      "\<forall>c\<in>set extra. \<forall>x\<in>set (column d c). x \<noteq> Some Null \<and> x \<noteq> Some NoneV" by blast
    have f0: "filter (\<lambda>col. col \<in> set (columns df)) critical_columns = []"
      using False by (simp add: filter_empty_conv)
    then have "filter (\<lambda>col. col \<in> set (columns d)) critical_columns = []"
      using same_raw_critical [OF sd] by simp
    with f0 have "completeness_columns d = take (min 4 (length (columns d))) (columns d)"
      "completeness_columns df = take (min 4 (length (columns df))) (columns df)"
      by (simp_all add: completeness_columns_def)
    then show ?thesis using fallback_missing_mask [OF sd raw e] by simp
  qed
  have 3: "column d ''flag_completeness'' = map Some (astype_int (missing_mask d (completeness_columns d)))"
    unfolding mask by (rule cc)
  have 4: "column d ''flag_consistency'' = map Some (map IntV (map (consistency_flag lib (columns d)) (rows d)))"
    unfolding same_raw_consistency [OF sd1] by (rule cs)
  have 5: "map_result (validity_flag lib (columns d)) (rows d) = Inr flags"
    unfolding same_raw_validity [OF sd2] by (rule m)
  have "0 < len_df d" using rd by (simp add: len_df_def)
  then have "cell_at (columns d) (rows d ! 0) ''flag_completeness'' = Some (?v1 ! 0)"
    using n1 ldd column_nth [of 0 d "''flag_completeness''"] unfolding cc by simp
  then have "columns d \<noteq> []" by (auto dest: cell_at_Some_mem)
  moreover have "columns df3 \<noteq> []" unfolding d3 by (rule columns_set_col_nonempty)
  ultimately have 7: "duplicated_all d (uniqueness_columns d) = Inr dup"
    using same_raw_duplicated [OF sd3] u by simp
  have 8: "length dup = len_df d" using ld ldd by simp
  from four_checks_fixed [OF d(1) rd 3 4 5 cv 7 8 cu] show ?thesis .
qed

lemma four_checks_appended:
  assumes "wf_df df" and "four_checks lib qi df = Inr (qi4, df4)"
    and raw: "\<forall>c\<in>set (columns df). \<not> startswith ''flag_'' c"
  shows "columns df4 = columns df @ dimension_flags"
    and "\<forall>c\<in>set dimension_flags. \<forall>x\<in>set (column df4 c). x \<noteq> Some Null \<and> x \<noteq> Some NoneV"
    and "wf_df df4"
proof -
  from assms(1,2) obtain v1 v2 v3 v4 where
    d4: "df4 = set_col ''flag_uniqueness'' v4 (set_col ''flag_validity'' v3
             (set_col ''flag_consistency'' v2 (set_col ''flag_completeness'' v1 df)))"
    and l: "length v1 = len_df df" "length v2 = len_df df" "length v3 = len_df df" "length v4 = len_df df"
    and b: "\<forall>v\<in>set v1. v = IntV 0 \<or> v = IntV 1" "\<forall>v\<in>set v2. v = IntV 0 \<or> v = IntV 1"
      "\<forall>v\<in>set v3. v = IntV 0 \<or> v = IntV 1" "\<forall>v\<in>set v4. v = IntV 0 \<or> v = IntV 1"
    by (rule four_checks_trace)
  note s = four_set_cols [OF assms(1) d4 l]
  show "wf_df df4" by (rule s(1))
  have "f \<notin> set (columns df)" if "f \<in> set dimension_flags" for f
    using raw that startswith_dimension_flags by blast
  then have "''flag_completeness'' \<notin> set (columns df)" "''flag_consistency'' \<notin> set (columns df)"
    "''flag_validity'' \<notin> set (columns df)" "''flag_uniqueness'' \<notin> set (columns df)"
    by (simp_all add: dimension_flags_def)
  then show "columns df4 = columns df @ dimension_flags"
    unfolding d4 by (simp add: columns_set_col dimension_flags_def)
  show "\<forall>c\<in>set dimension_flags. \<forall>x\<in>set (column df4 c). x \<noteq> Some Null \<and> x \<noteq> Some NoneV"
    using s(3-6) b by (auto simp: dimension_flags_def)
qed

text \<open>
  Claim C8, as the code has it. When the dataset has one of the critical columns, or no
  column whose name starts with \<^verbatim>\<open>flag_\<close>, the four evaluators run a second time, on
  the frame a first run annotated (the four evaluators alone, or all of
  \<^verbatim>\<open>run_all_checks\<close>), return and give back that frame unchanged: every flag column
  has the values of the first run.
\<close>

theorem second_run_same_flags:
  assumes "wf_df df"
    and "(\<exists>c\<in>set critical_columns. c \<in> set (columns df))
         \<or> (\<forall>c\<in>set (columns df). \<not> startswith ''flag_'' c)"
  shows "(four_checks lib qi df = Inr (qi1, df1) \<longrightarrow> (\<exists>qi2. four_checks lib qi1 df1 = Inr (qi2, df1)))
       \<and> (run_all_checks lib qi df = Inr (qi1, df1) \<longrightarrow> (\<exists>qi2. four_checks lib qi1 df1 = Inr (qi2, df1)))"
proof (intro conjI impI)
  assume run: "four_checks lib qi df = Inr (qi1, df1)"
  have w: "wf_df df1"
  proof -
    from assms(1) run obtain v1 v2 v3 v4 where
      "df1 = set_col ''flag_uniqueness'' v4 (set_col ''flag_validity'' v3
             (set_col ''flag_consistency'' v2 (set_col ''flag_completeness'' v1 df)))"
      "length v1 = len_df df" "length v2 = len_df df" "length v3 = len_df df" "length v4 = len_df df"
      by (rule four_checks_trace)
    then show ?thesis by (rule four_set_cols(1) [OF assms(1)])
  qed
  have ex: "(\<forall>c\<in>set (columns df). \<not> startswith ''flag_'' c) \<longrightarrow>
             (\<exists>extra. columns df1 = columns df @ extra
                      \<and> (\<forall>c\<in>set extra. \<forall>x\<in>set (column df1 c). x \<noteq> Some Null \<and> x \<noteq> Some NoneV))"
    using four_checks_appended(1,2) [OF assms(1) run] by blast
  show "\<exists>qi2. four_checks lib qi1 df1 = Inr (qi2, df1)"
    by (rule annotated_fixed [OF assms(1) run assms(2) w same_raw_refl _ ex]) simp
next
  assume "run_all_checks lib qi df = Inr (qi1, df1)"
  then obtain df4 overall where run: "four_checks lib qi df = Inr (qi1, df4)"
    and m: "max_axis1 df4 (filter (startswith ''flag_'') (columns df4)) = Inr overall"
    and d': "df1 = set_series ''flag_overall'' overall df4"
    by (rule run_all_checks_four)
  have w4: "wf_df df4"
  proof -
    from assms(1) run obtain v1 v2 v3 v4 where
      "df4 = set_col ''flag_uniqueness'' v4 (set_col ''flag_validity'' v3
             (set_col ''flag_consistency'' v2 (set_col ''flag_completeness'' v1 df)))"
      "length v1 = len_df df" "length v2 = len_df df" "length v3 = len_df df" "length v4 = len_df df"
      by (rule four_checks_trace)
    then show ?thesis by (rule four_set_cols(1) [OF assms(1)])
  qed
  have lo: "length overall = len_df df4" using m by (rule max_axis1_length)
  then have d1: "df1 = set_col ''flag_overall'' overall df4" using d' by (simp add: set_series_eq)
  have w: "wf_df df1" unfolding d1 using w4 lo by (rule wf_df_set_col)
  have s: "same_raw df1 df4" unfolding d1 using w4 lo by (rule same_raw_set_col) (simp add: startswith_def)
  have keep: "\<forall>f\<in>set dimension_flags. column df1 f = column df4 f"
    unfolding d1 using w4 lo flag_overall_not_dimension
    by (auto intro!: column_set_col_other)
  have ex: "(\<forall>c\<in>set (columns df). \<not> startswith ''flag_'' c) \<longrightarrow>
             (\<exists>extra. columns df1 = columns df @ extra
                      \<and> (\<forall>c\<in>set extra. \<forall>x\<in>set (column df1 c). x \<noteq> Some Null \<and> x \<noteq> Some NoneV))"
  proof
    assume raw: "\<forall>c\<in>set (columns df). \<not> startswith ''flag_'' c"
    note a = four_checks_appended [OF assms(1) run raw]
    have "''flag_overall'' \<notin> set (columns df)" using raw by (auto simp: startswith_def)
    then have cols: "columns df1 = columns df @ (dimension_flags @ [''flag_overall''])"
      unfolding d1 a(1) columns_set_col using flag_overall_not_dimension by simp
    have "\<forall>v\<in>set overall. v = IntV 0 \<or> v = IntV 1"
      using assms(1) run m by (rule overall_binary) (use raw in blast)
    moreover have "column df1 ''flag_overall'' = map Some overall"
      unfolding d1 using w4 lo by (rule column_set_col_same)
    ultimately have o: "\<forall>x\<in>set (column df1 ''flag_overall''). x \<noteq> Some Null \<and> x \<noteq> Some NoneV" by auto
    have "\<forall>c\<in>set dimension_flags. \<forall>x\<in>set (column df1 c). x \<noteq> Some Null \<and> x \<noteq> Some NoneV"
      using a(2) keep by simp
    with o have "\<forall>c\<in>set (dimension_flags @ [''flag_overall'']). \<forall>x\<in>set (column df1 c). x \<noteq> Some Null \<and> x \<noteq> Some NoneV"
      by simp
    with cols show "\<exists>extra. columns df1 = columns df @ extra
                      \<and> (\<forall>c\<in>set extra. \<forall>x\<in>set (column df1 c). x \<noteq> Some Null \<and> x \<noteq> Some NoneV)" by blast
  qed
  show "\<exists>qi2. four_checks lib qi1 df1 = Inr (qi2, df1)"
    by (rule annotated_fixed [OF assms(1) run assms(2) w s keep ex])
qed

text \<open>
  The theorem at a frame with critical columns, and at a frame with none, for which the
  completeness check falls back on the first columns.
\<close>

theorem second_run_same_flags_witness:
  "\<forall>lib. \<exists>q1 d1 q2 e1 e2 e3.
     wf_df \<lparr>columns = [''timevalue'', ''REVENUE''], rows = [[IntV 2019, IntV 5], [IntV 1850, Null]]\<rparr>
   \<and> ''timevalue'' \<in> set critical_columns
   \<and> run_all_checks lib [] \<lparr>columns = [''timevalue'', ''REVENUE''], rows = [[IntV 2019, IntV 5], [IntV 1850, Null]]\<rparr>
       = Inr (q1, d1)
   \<and> four_checks lib q1 d1 = Inr (q2, d1)
   \<and> wf_df \<lparr>columns = [''a''], rows = [[Null], [IntV 1], [IntV 1]]\<rparr>
   \<and> list_all (\<lambda>c. \<not> startswith ''flag_'' c) [''a'']
   \<and> four_checks lib [] \<lparr>columns = [''a''], rows = [[Null], [IntV 1], [IntV 1]]\<rparr> = Inr (e1, e2)
   \<and> column e2 ''flag_completeness'' = [Some (IntV 1), Some (IntV 0), Some (IntV 0)]
   \<and> column e2 ''flag_uniqueness'' = [Some (IntV 0), Some (IntV 1), Some (IntV 1)]
   \<and> four_checks lib e1 e2 = Inr (e3, e2)"
proof (intro allI)
  fix lib
  let ?df = "\<lparr>columns = [''timevalue'', ''REVENUE''], rows = [[IntV 2019, IntV 5], [IntV 1850, Null]]\<rparr>"
  let ?da = "\<lparr>columns = [''a''], rows = [[Null], [IntV 1], [IntV 1]]\<rparr>"
  have wf: "wf_df ?df" and wa: "wf_df ?da" by (simp_all add: wf_df_def)
  have crit: "''timevalue'' \<in> set critical_columns" by (simp add: critical_columns_def)
  then have h: "(\<exists>c\<in>set critical_columns. c \<in> set (columns ?df))
         \<or> (\<forall>c\<in>set (columns ?df). \<not> startswith ''flag_'' c)" by auto
  have raw: "list_all (\<lambda>c. \<not> startswith ''flag_'' c) [''a'']" by (simp add: startswith_def)
  then have ha: "(\<exists>c\<in>set critical_columns. c \<in> set (columns ?da))
         \<or> (\<forall>c\<in>set (columns ?da). \<not> startswith ''flag_'' c)" by simp
  obtain q1 d1 where run: "run_all_checks lib [] ?df = Inr (q1, d1)"
    by (simp add: run_defs check_defs)
  obtain e1 e2 where runa: "four_checks lib [] ?da = Inr (e1, e2)"
    and c: "column e2 ''flag_completeness'' = [Some (IntV 1), Some (IntV 0), Some (IntV 0)]"
      "column e2 ''flag_uniqueness'' = [Some (IntV 0), Some (IntV 1), Some (IntV 1)]"
    by (simp add: run_defs check_defs column_def)
  from second_run_same_flags [OF wf h, of lib "[]" q1 d1] run
  obtain q2 where again: "four_checks lib q1 d1 = Inr (q2, d1)" by blast
  from second_run_same_flags [OF wa ha, of lib "[]" e1 e2] runa
  obtain e3 where againa: "four_checks lib e1 e2 = Inr (e3, e2)" by blast
  from wf wa crit raw run runa c again againa
  show "\<exists>q1 d1 q2 e1 e2 e3. wf_df ?df \<and> ''timevalue'' \<in> set critical_columns
   \<and> run_all_checks lib [] ?df = Inr (q1, d1)
   \<and> four_checks lib q1 d1 = Inr (q2, d1)
   \<and> wf_df ?da
   \<and> list_all (\<lambda>c. \<not> startswith ''flag_'' c) [''a'']
   \<and> four_checks lib [] ?da = Inr (e1, e2)
   \<and> column e2 ''flag_completeness'' = [Some (IntV 1), Some (IntV 0), Some (IntV 0)]
   \<and> column e2 ''flag_uniqueness'' = [Some (IntV 0), Some (IntV 1), Some (IntV 1)]
   \<and> four_checks lib e1 e2 = Inr (e3, e2)"
    by blast
qed

text \<open>
  Claim C8 as it is stated fails on a frame that has no critical column and carries a
  column \<^verbatim>\<open>flag_validity\<close> with a missing value: the first run reads that column as
  one of the first four and sets \<^verbatim>\<open>flag_completeness\<close> to 1, then overwrites it with
  0; the second run finds no missing value and sets \<^verbatim>\<open>flag_completeness\<close> to 0.
\<close>

theorem second_run_changes_completeness:
  "\<forall>lib qi qi'.
     map_sum id snd (four_checks lib qi \<lparr>columns = [''flag_validity'', ''a''], rows = [[Null, IntV 1]]\<rparr>)
       = Inr \<lparr>columns = [''flag_validity'', ''a'', ''flag_completeness'', ''flag_consistency'', ''flag_uniqueness''],
              rows = [[IntV 0, IntV 1, IntV 1, IntV 0, IntV 0]]\<rparr>
   \<and> map_sum id snd (four_checks lib qi'
         \<lparr>columns = [''flag_validity'', ''a'', ''flag_completeness'', ''flag_consistency'', ''flag_uniqueness''],
          rows = [[IntV 0, IntV 1, IntV 1, IntV 0, IntV 0]]\<rparr>)
       = Inr \<lparr>columns = [''flag_validity'', ''a'', ''flag_completeness'', ''flag_consistency'', ''flag_uniqueness''],
              rows = [[IntV 0, IntV 1, IntV 0, IntV 0, IntV 0]]\<rparr>"
  by (simp add: run_defs check_defs)

section \<open>The sub-checks at sample values\<close>

text \<open>
  The sub-checks at the values the specification gives as examples: an upper-case and a
  title-case company name pass and \<^verbatim>\<open>acme corp!\<close> fails; the status \<^verbatim>\<open>Active\<close> passes
  in any case of its letters and \<^verbatim>\<open>Closed\<close> fails; the years 2019 and 1850; the
  revenues -5 and 1000000; the fiscal period ends \<^verbatim>\<open>30-Jun\<close> and \<^verbatim>\<open>June 30\<close>.
\<close>

theorem sub_check_examples:
  "\<forall>lib.
     \<not> company_issue lib (StrV ''ACME CORP'') \<and> company_issue lib (StrV ''acme corp!'')
   \<and> \<not> company_issue lib (StrV ''Acme Corp'')
   \<and> \<not> operation_issue lib (StrV ''Active'') \<and> operation_issue lib (StrV ''Closed'')
   \<and> \<not> ipo_issue lib (StrV ''private'') \<and> ipo_issue lib (StrV ''listed'')
   \<and> \<not> currency_issue lib (StrV ''EUR'') \<and> currency_issue lib (StrV ''EURO'')
   \<and> year_issue (IntV 2019) = Inr False \<and> year_issue (IntV 1850) = Inr True
   \<and> year_issue (StrV ''2019'') = Inr False \<and> year_issue (StrV ''2019.0'') = Inr True
   \<and> revenue_issue lib (IntV (- 5)) = Inr True \<and> revenue_issue lib (IntV 1000000) = Inr False
   \<and> \<not> fiscal_issue lib (StrV ''30-Jun'') \<and> fiscal_issue lib (StrV ''June 30'')
   \<and> \<not> industry_issue lib (StrV ''7010 - Description'') \<and> industry_issue lib (StrV ''701 - Description'')"
  by (simp add: company_issue_def operation_issue_def ipo_issue_def currency_issue_def
      year_issue_def revenue_issue_def fiscal_issue_def industry_issue_def except_value_type_def
      float_overflow_def int_of_text_def strip_space_def unsigned_of_text_def digits_value_def
      max_str_digits_def str_defs)

end
